theory Spec2Isabelle
  imports Main "HOL-Library.AList"
begin

section \<open>Strings and the JavaScript runtime\<close>

text \<open>
  A JavaScript string is a sequence of UTF-16 code units, the integers from 0 to
  65535 (\<^verbatim>\<open>charCodeAt\<close>). The library indexes strings
  with \<^verbatim>\<open>text[i]\<close> and \<^verbatim>\<open>text.length\<close>, so every index and length below counts
  code units. A character of the Basic Multilingual Plane is one code unit; a
  supplementary character is a surrogate pair of two.
\<close>

type_synonym codeunit = int

type_synonym jsstring = "codeunit list"

text \<open>ASCII literals: \<open>U ''shit''\<close> is the string of the code units of \<open>shit\<close>.\<close>

definition U :: "string \<Rightarrow> jsstring" where
  "U s = map of_char s"

text \<open>
  The built-ins of the runtime that the library calls, and the word tables of the
  language packs (\<^verbatim>\<open>src/languages/*.ts\<close>, which the library imports), are parameters
  of the model:
  \<^item> \<open>toLowerCase\<close> is \<^verbatim>\<open>String.prototype.toLowerCase\<close>;
  \<^item> \<open>normalizeNFKD\<close> and \<open>normalizeNFKC\<close> are \<^verbatim>\<open>String.prototype.normalize\<close>;
  \<^item> \<open>isWordCodePoint c\<close> says that the code point \<open>c\<close> is matched by
    \<^verbatim>\<open>/[\p{L}\p{N}_]/u\<close>;
  \<^item> \<open>EN_WORDS\<close> is the English table and \<open>languageWordMap\<close> the table of all packs,
    in the key order of the object literal.
\<close>

record env =
  toLowerCase :: "jsstring \<Rightarrow> jsstring"
  normalizeNFKD :: "jsstring \<Rightarrow> jsstring"
  normalizeNFKC :: "jsstring \<Rightarrow> jsstring"
  isWordCodePoint :: "int \<Rightarrow> bool"
  EN_WORDS :: "jsstring list"
  languageWordMap :: "(jsstring \<times> jsstring list) list"

text \<open>\<^verbatim>\<open>WORD_CHAR.test(text[i])\<close>: the test of a one-unit string.\<close>

definition WORD_CHAR :: "env \<Rightarrow> codeunit \<Rightarrow> bool" where
  "WORD_CHAR e ch = isWordCodePoint e ch"

section \<open>Normalization (core/normalization.ts)\<close>

record NormalizationOptions =
  n_caseSensitive :: bool
  n_confusableMapping :: bool
  n_stripDiacritics :: "bool option"
  n_useNFKC :: "bool option"
  n_lengthPreserving :: "bool option"
  n_stripInvisible :: "bool option"

definition CONFUSABLE_MAP :: "(codeunit \<times> codeunit) list" where
  "CONFUSABLE_MAP =
    [(0x30, 0x6F), (0x31, 0x69), (0x33, 0x65), (0x34, 0x61), (0x35, 0x73),
     (0x37, 0x74), (0x38, 0x62), (0x40, 0x61), (0x24, 0x73), (0x21, 0x69),
     (0x7C, 0x69), (0x20AC, 0x65), (0xA3, 0x6C), (0xA2, 0x63), (0xA7, 0x73)]"

definition COMBINING_MARK :: "codeunit \<Rightarrow> bool" where
  "COMBINING_MARK c \<longleftrightarrow> 0x300 \<le> c \<and> c \<le> 0x36F"

definition isInvisible :: "codeunit \<Rightarrow> bool" where
  "isInvisible ch \<longleftrightarrow>
     ch = 0x200B \<or> ch = 0x200C \<or> ch = 0x200D \<or> ch = 0xFEFF \<or> ch = 0xAD"

text \<open>
  One iteration of the loop over \<^verbatim>\<open>text[i]\<close>: the string appended to \<^verbatim>\<open>out\<close>
  (the empty string where the source says \<^verbatim>\<open>continue\<close>).
\<close>

definition normalizeStep :: "env \<Rightarrow> bool \<Rightarrow> bool \<Rightarrow> bool \<Rightarrow> bool \<Rightarrow> codeunit \<Rightarrow> jsstring" where
  "normalizeStep e stripInv stripDia confMap lenPres c =
    (if stripInv \<and> isInvisible c \<and> \<not> lenPres then []
     else
       let ch0 = (if stripInv \<and> isInvisible c then [0x20] else [c]);
           ch1 = (if stripDia then
                    (let base = filter (\<lambda>u. \<not> COMBINING_MARK u) (normalizeNFKD e ch0)
                     in if lenPres then (if length base > 0 then [hd base] else ch0)
                        else base)
                  else ch0);
           ch2 = (if confMap \<and> length ch1 = 1 then
                    (case map_of CONFUSABLE_MAP (hd ch1) of
                       Some v \<Rightarrow> [v]
                     | None \<Rightarrow> ch1)
                  else ch1)
       in ch2)"

definition normalizeForDetection :: "env \<Rightarrow> jsstring \<Rightarrow> NormalizationOptions \<Rightarrow> jsstring" where
  "normalizeForDetection e input options =
    (let stripDia = (case n_stripDiacritics options of None \<Rightarrow> True | Some b \<Rightarrow> b);
         nfkc = (case n_useNFKC options of None \<Rightarrow> False | Some b \<Rightarrow> b);
         lenPres = (case n_lengthPreserving options of None \<Rightarrow> True | Some b \<Rightarrow> b);
         stripInv = (case n_stripInvisible options of None \<Rightarrow> True | Some b \<Rightarrow> b);
         text0 = (if n_caseSensitive options then input else toLowerCase e input);
         text1 = (if nfkc \<and> \<not> lenPres then normalizeNFKC e text0 else text0)
     in if stripDia \<or> n_confusableMapping options \<or> (nfkc \<and> lenPres) \<or> stripInv
        then concat (map (normalizeStep e stripInv stripDia (n_confusableMapping options) lenPres) text1)
        else text1)"

definition normalizeWordWithOptions :: "env \<Rightarrow> jsstring \<Rightarrow> NormalizationOptions \<Rightarrow> jsstring" where
  "normalizeWordWithOptions e input options = normalizeForDetection e input options"

section \<open>Code points\<close>

definition isHighSurrogate :: "codeunit \<Rightarrow> bool" where
  "isHighSurrogate c \<longleftrightarrow> 0xD800 \<le> c \<and> c \<le> 0xDBFF"

definition isLowSurrogate :: "codeunit \<Rightarrow> bool" where
  "isLowSurrogate c \<longleftrightarrow> 0xDC00 \<le> c \<and> c \<le> 0xDFFF"

text \<open>
  The string iterator (\<^verbatim>\<open>for (const ch of word)\<close>) yields one string per code point:
  a surrogate pair as a two-unit string, any other unit alone.
\<close>

fun codePoints :: "jsstring \<Rightarrow> jsstring list" where
  "codePoints (a # b # rest) =
     (if isHighSurrogate a \<and> isLowSurrogate b then [a, b] # codePoints rest
      else [a] # codePoints (b # rest))"
| "codePoints [a] = [[a]]"
| "codePoints [] = []"

definition codePointValue :: "jsstring \<Rightarrow> int" where
  "codePointValue cp =
     (case cp of
        [a, b] \<Rightarrow> 0x10000 + (a - 0xD800) * 0x400 + (b - 0xDC00)
      | _ \<Rightarrow> hd cp)"

section \<open>Trie matcher (core/trie.ts)\<close>

text \<open>
  \<^verbatim>\<open>TrieNode\<close> and \<^verbatim>\<open>PhraseTrieNode\<close> are the same interface: a \<^verbatim>\<open>Map\<close> from
  strings to nodes, in insertion order, and a terminal flag. The keys of the word trie
  are code-point strings, the keys of the phrase trie are tokens.
\<close>

datatype TrieNode = TrieNode (children: "(jsstring \<times> TrieNode) list") (isTerminal: bool)

definition emptyTrie :: TrieNode where
  "emptyTrie = TrieNode [] False"

text \<open>The walk shared by \<^verbatim>\<open>Trie.insert\<close> and \<^verbatim>\<open>PhraseTrie.insert\<close>.\<close>

fun insertKeys :: "jsstring list \<Rightarrow> TrieNode \<Rightarrow> TrieNode" where
  "insertKeys [] (TrieNode cs t) = TrieNode cs True"
| "insertKeys (k # ks) (TrieNode cs t) =
     (case map_of cs k of
        None \<Rightarrow> TrieNode (cs @ [(k, insertKeys ks emptyTrie)]) t
      | Some next \<Rightarrow> TrieNode (AList.update k (insertKeys ks next) cs) t)"

definition Trie_insert :: "jsstring \<Rightarrow> TrieNode \<Rightarrow> TrieNode" where
  "Trie_insert word root = (if word = [] then root else insertKeys (codePoints word) root)"

definition Trie_insertAll :: "jsstring list \<Rightarrow> TrieNode \<Rightarrow> TrieNode" where
  "Trie_insertAll words root = fold Trie_insert words root"

record TrieMatch =
  index :: nat
  length' :: nat

text \<open>
  The inner \<^verbatim>\<open>while (j < length)\<close> loop of \<^verbatim>\<open>findAllMatches\<close>. The last argument is
  \<^verbatim>\<open>lastTerminalEndIndex\<close>, with \<open>None\<close> for \<^verbatim>\<open>-1\<close>. The separator set is the list
  of its members; \<^verbatim>\<open>ignoreSeparators\<close> is \<open>seps \<noteq> []\<close>.
\<close>

function trieWalk ::
  "env \<Rightarrow> jsstring \<Rightarrow> bool \<Rightarrow> jsstring list \<Rightarrow> TrieNode \<Rightarrow> nat \<Rightarrow> nat option \<Rightarrow> nat option" where
  "trieWalk e text wholeWordsOnly seps node j lastTerminalEndIndex =
    (if j < length text then
       (let ch = text ! j in
        if seps \<noteq> [] \<and> [ch] \<in> set seps
        then trieWalk e text wholeWordsOnly seps node (j + 1) lastTerminalEndIndex
        else
          (case map_of (children node) [ch] of
             None \<Rightarrow> lastTerminalEndIndex
           | Some next \<Rightarrow>
               trieWalk e text wholeWordsOnly seps next (j + 1)
                 (if isTerminal next then
                    (if wholeWordsOnly then
                       (if j + 1 < length text \<and> WORD_CHAR e (text ! (j + 1))
                        then lastTerminalEndIndex else Some j)
                     else Some j)
                  else lastTerminalEndIndex)))
     else lastTerminalEndIndex)"
  by pat_completeness auto
termination
  by (relation "measure (\<lambda>(e, text, w, seps, node, j, l). length text - j)") auto

declare trieWalk.simps [simp del]

text \<open>One iteration of the loop over \<^verbatim>\<open>startIndex\<close>: the match pushed, if any.\<close>

definition trieStart ::
  "env \<Rightarrow> jsstring \<Rightarrow> bool \<Rightarrow> jsstring list \<Rightarrow> TrieNode \<Rightarrow> nat \<Rightarrow> TrieMatch option" where
  "trieStart e text wholeWordsOnly seps root startIndex =
    (if seps \<noteq> [] \<and> [text ! startIndex] \<in> set seps then None
     else if wholeWordsOnly \<and> startIndex > 0 \<and> WORD_CHAR e (text ! (startIndex - 1)) then None
     else
       (case trieWalk e text wholeWordsOnly seps root startIndex None of
          None \<Rightarrow> None
        | Some lastTerminalEndIndex \<Rightarrow>
            Some \<lparr>index = startIndex, length' = lastTerminalEndIndex - startIndex + 1\<rparr>))"

definition Trie_findAllMatches ::
  "env \<Rightarrow> TrieNode \<Rightarrow> jsstring \<Rightarrow> bool \<Rightarrow> jsstring list \<Rightarrow> TrieMatch list" where
  "Trie_findAllMatches e root text wholeWordsOnly seps =
     List.map_filter (trieStart e text wholeWordsOnly seps root) [0..<length text]"

section \<open>Phrase trie (core/phraseTrie.ts)\<close>

definition PhraseTrie_insert :: "jsstring list \<Rightarrow> TrieNode \<Rightarrow> TrieNode" where
  "PhraseTrie_insert tokens root = (if tokens = [] then root else insertKeys tokens root)"

definition PhraseTrie_insertAll :: "jsstring list list \<Rightarrow> TrieNode \<Rightarrow> TrieNode" where
  "PhraseTrie_insertAll phrases root = fold PhraseTrie_insert phrases root"

text \<open>
  The inner loop over \<^verbatim>\<open>i\<close> from one \<^verbatim>\<open>start\<close>: \<open>ts\<close> are the tokens from index \<open>i\<close> on.
  The result is \<^verbatim>\<open>endTokenIndex\<close> of the span pushed, if one is pushed.
\<close>

fun phraseWalk :: "TrieNode \<Rightarrow> jsstring list \<Rightarrow> int \<Rightarrow> jsstring list \<Rightarrow> nat \<Rightarrow> int \<Rightarrow> nat option" where
  "phraseWalk node stopwords maxSkips [] i skipsUsed = None"
| "phraseWalk node stopwords maxSkips (t # ts) i skipsUsed =
     (case map_of (children node) t of
        Some next \<Rightarrow>
          (if isTerminal next then Some i
           else phraseWalk next stopwords maxSkips ts (i + 1) skipsUsed)
      | None \<Rightarrow>
          (if stopwords \<noteq> [] \<and> t \<in> set stopwords \<and> skipsUsed < maxSkips
           then phraseWalk node stopwords maxSkips ts (i + 1) (skipsUsed + 1)
           else None))"

record PhraseMatchTokenSpan =
  startTokenIndex :: nat
  endTokenIndex :: nat

definition findAllMatchesForTokens ::
  "TrieNode \<Rightarrow> jsstring list \<Rightarrow> jsstring list \<Rightarrow> int \<Rightarrow> PhraseMatchTokenSpan list" where
  "findAllMatchesForTokens root tokens stopwords maxSkipsBetweenTokens =
     List.map_filter
       (\<lambda>start.
          map_option (\<lambda>end. \<lparr>startTokenIndex = start, endTokenIndex = end\<rparr>)
            (phraseWalk root stopwords maxSkipsBetweenTokens (drop start tokens) start 0))
       [0..<length tokens]"

section \<open>Aho--Corasick matcher (core/aho.ts)\<close>

record AhoNode =
  achildren :: "(jsstring \<times> nat) list"
  fail :: nat
  terminalLengths :: "nat list"

text \<open>The automaton is the array \<^verbatim>\<open>nodes\<close>; node \<open>0\<close> is the root.\<close>

type_synonym AhoCorasick = "AhoNode list"

definition newAhoNode :: AhoNode where
  "newAhoNode = \<lparr>achildren = [], fail = 0, terminalLengths = []\<rparr>"

definition AhoCorasick_new :: AhoCorasick where
  "AhoCorasick_new = [newAhoNode]"

text \<open>
  The loop of \<^verbatim>\<open>insert\<close> over the code points of the word, from node \<open>nodeIndex\<close>;
  \<open>wordLength\<close> is \<^verbatim>\<open>word.length\<close>, in code units.
\<close>

fun ahoInsertFrom :: "jsstring list \<Rightarrow> nat \<Rightarrow> nat \<Rightarrow> AhoCorasick \<Rightarrow> AhoCorasick" where
  "ahoInsertFrom [] wordLength nodeIndex nodes =
     nodes[nodeIndex := (nodes ! nodeIndex)
             \<lparr>terminalLengths := terminalLengths (nodes ! nodeIndex) @ [wordLength]\<rparr>]"
| "ahoInsertFrom (ch # rest) wordLength nodeIndex nodes =
     (case map_of (achildren (nodes ! nodeIndex)) ch of
        Some nextIndex \<Rightarrow> ahoInsertFrom rest wordLength nextIndex nodes
      | None \<Rightarrow>
          (let nextIndex = length nodes in
           ahoInsertFrom rest wordLength nextIndex
             (nodes[nodeIndex := (nodes ! nodeIndex)
                      \<lparr>achildren := achildren (nodes ! nodeIndex) @ [(ch, nextIndex)]\<rparr>]
              @ [newAhoNode])))"

definition Aho_insert :: "jsstring \<Rightarrow> AhoCorasick \<Rightarrow> AhoCorasick" where
  "Aho_insert word nodes =
     (if word = [] then nodes else ahoInsertFrom (codePoints word) (length word) 0 nodes)"

definition Aho_insertAll :: "jsstring list \<Rightarrow> AhoCorasick \<Rightarrow> AhoCorasick" where
  "Aho_insertAll words nodes = fold Aho_insert words nodes"

text \<open>
  The loops of \<^verbatim>\<open>build\<close> and of the search are bounded only by the shape of the
  automaton, so they are partial: \<open>None\<close> is no result, either because a loop does not
  end or because a node that is read is missing from the array (a \<^verbatim>\<open>TypeError\<close>).

  \<open>followFail\<close> is the loop
  \<^verbatim>\<open>while (f !== 0 && !this.nodes[f].children.has(ch)) f = this.nodes[f].fail\<close>.
\<close>

partial_function (option) followFail :: "AhoCorasick \<Rightarrow> jsstring \<Rightarrow> nat \<Rightarrow> nat option" where
  "followFail nodes ch f =
     (if f = 0 then Some f
      else if f \<ge> length nodes then None
      else if map_of (achildren (nodes ! f)) ch = None
           then followFail nodes ch (fail (nodes ! f))
           else Some f)"

declare followFail.simps [code]

text \<open>
  The body of the loop over the children \<^verbatim>\<open>[ch, nextIndex]\<close> of \<^verbatim>\<open>current\<close>, in
  three steps: the walk along the failure links from \<^verbatim>\<open>nodes[current].fail\<close>, which
  ends in \<open>f0\<close>; the failure target \<open>f\<close>; and the assignment of \<^verbatim>\<open>fail\<close> with the
  inherited outputs.
\<close>

definition failTarget :: "AhoCorasick \<Rightarrow> jsstring \<Rightarrow> nat \<Rightarrow> nat \<Rightarrow> nat" where
  "failTarget nodes ch nextIndex f0 =
     (case map_of (achildren (nodes ! f0)) ch of
        Some target \<Rightarrow>
          (if map_of (achildren (nodes ! 0)) ch \<noteq> Some nextIndex then target else f0)
      | None \<Rightarrow> f0)"

definition setFail :: "AhoCorasick \<Rightarrow> nat \<Rightarrow> nat \<Rightarrow> AhoCorasick" where
  "setFail nodes nextIndex f =
     (let nodes1 = nodes[nextIndex := (nodes ! nextIndex)\<lparr>fail := f\<rparr>];
          inherited = terminalLengths (nodes1 ! f)
      in if length inherited > 0
         then nodes1[nextIndex := (nodes1 ! nextIndex)
                \<lparr>terminalLengths := terminalLengths (nodes1 ! nextIndex) @ inherited\<rparr>]
         else nodes1)"

definition buildChild :: "nat \<Rightarrow> jsstring \<times> nat \<Rightarrow> AhoCorasick \<Rightarrow> AhoCorasick option" where
  "buildChild current edge nodes =
    (case edge of (ch, nextIndex) \<Rightarrow>
      if current \<ge> length nodes then None
      else
        (case followFail nodes ch (fail (nodes ! current)) of
           None \<Rightarrow> None
         | Some f0 \<Rightarrow>
             if f0 \<ge> length nodes then None
             else
               (let f = failTarget nodes ch nextIndex f0
                in if nextIndex \<ge> length nodes \<or> f \<ge> length nodes then None
                   else Some (setFail nodes nextIndex f))))"

fun buildChildren :: "nat \<Rightarrow> (jsstring \<times> nat) list \<Rightarrow> AhoCorasick \<Rightarrow> AhoCorasick option" where
  "buildChildren current [] nodes = Some nodes"
| "buildChildren current (edge # edges) nodes =
     (case buildChild current edge nodes of
        None \<Rightarrow> None
      | Some nodes' \<Rightarrow> buildChildren current edges nodes')"

text \<open>The loop \<^verbatim>\<open>while (queue.length > 0)\<close>.\<close>

partial_function (option) buildLoop :: "AhoCorasick \<Rightarrow> nat list \<Rightarrow> AhoCorasick option" where
  "buildLoop nodes queue =
     (case queue of
        [] \<Rightarrow> Some nodes
      | current # rest \<Rightarrow>
          if current \<ge> length nodes then None
          else
            (case buildChildren current (achildren (nodes ! current)) nodes of
               None \<Rightarrow> None
             | Some nodes' \<Rightarrow>
                 buildLoop nodes' (rest @ map snd (achildren (nodes ! current)))))"

declare buildLoop.simps [code]

text \<open>The first loop of \<^verbatim>\<open>build\<close>: the children of the root fail to the root.\<close>

fun buildInit :: "nat list \<Rightarrow> AhoCorasick \<Rightarrow> AhoCorasick option" where
  "buildInit [] nodes = Some nodes"
| "buildInit (childIndex # rest) nodes =
     (if childIndex \<ge> length nodes then None
      else buildInit rest (nodes[childIndex := (nodes ! childIndex)\<lparr>fail := 0\<rparr>]))"

definition Aho_build :: "AhoCorasick \<Rightarrow> AhoCorasick option" where
  "Aho_build nodes =
     (if nodes = [] then None
      else
        (let queue = map snd (achildren (nodes ! 0)) in
         case buildInit queue nodes of
           None \<Rightarrow> None
         | Some nodes' \<Rightarrow> buildLoop nodes' queue))"

text \<open>
  The search. \<open>compact\<close> is the text without its separators, each unit with its index
  in the text (\<^verbatim>\<open>compactChars\<close> and \<^verbatim>\<open>indexMap\<close>); without separators to ignore
  it is the text itself with the identity map.
\<close>

definition compactText :: "jsstring \<Rightarrow> jsstring list \<Rightarrow> (codeunit \<times> nat) list" where
  "compactText text seps =
     (if seps \<noteq> [] then filter (\<lambda>(ch, i). [ch] \<notin> set seps) (zip text [0..<length text])
      else zip text [0..<length text])"

text \<open>The matches pushed at position \<open>i\<close> of the scanned text for the outputs of a state.\<close>

definition ahoOutputs ::
  "env \<Rightarrow> jsstring \<Rightarrow> bool \<Rightarrow> nat list \<Rightarrow> nat \<Rightarrow> nat list \<Rightarrow> TrieMatch list" where
  "ahoOutputs e text wholeWordsOnly toOriginalIndex i outputs =
     List.map_filter
       (\<lambda>len.
          if i + 1 < len then None
          else
            (let startOriginal = toOriginalIndex ! (i + 1 - len);
                 endOriginal = toOriginalIndex ! i;
                 leftOk = (startOriginal = 0 \<or> \<not> WORD_CHAR e (text ! (startOriginal - 1)));
                 rightOk = (endOriginal + 1 \<ge> length text
                            \<or> \<not> WORD_CHAR e (text ! (endOriginal + 1)))
             in if wholeWordsOnly \<and> (\<not> leftOk \<or> \<not> rightOk) then None
                else Some \<lparr>index = startOriginal,
                           length' = endOriginal - startOriginal + 1\<rparr>))
       outputs"

text \<open>The loop over the scanned text from position \<open>i\<close>, in state \<open>state\<close>.\<close>

fun ahoScan ::
  "env \<Rightarrow> AhoCorasick \<Rightarrow> jsstring \<Rightarrow> bool \<Rightarrow> nat list \<Rightarrow> jsstring \<Rightarrow> nat \<Rightarrow> nat
     \<Rightarrow> TrieMatch list option" where
  "ahoScan e nodes text wholeWordsOnly toOriginalIndex [] i state = Some []"
| "ahoScan e nodes text wholeWordsOnly toOriginalIndex (ch # rest) i state =
     (case followFail nodes [ch] state of
        None \<Rightarrow> None
      | Some s0 \<Rightarrow>
          if s0 \<ge> length nodes then None
          else
            (let state' = (case map_of (achildren (nodes ! s0)) [ch] of
                             Some next \<Rightarrow> next
                           | None \<Rightarrow> s0)
             in if state' \<ge> length nodes then None
                else
                  (case ahoScan e nodes text wholeWordsOnly toOriginalIndex rest (i + 1) state' of
                     None \<Rightarrow> None
                   | Some results \<Rightarrow>
                       Some (ahoOutputs e text wholeWordsOnly toOriginalIndex i
                               (terminalLengths (nodes ! state')) @ results))))"

definition Aho_findAllMatches ::
  "env \<Rightarrow> AhoCorasick \<Rightarrow> jsstring \<Rightarrow> bool \<Rightarrow> jsstring list \<Rightarrow> TrieMatch list option" where
  "Aho_findAllMatches e nodes text wholeWordsOnly seps =
     (let compact = compactText text seps
      in ahoScan e nodes text wholeWordsOnly (map snd compact) (map fst compact) 0 0)"

section \<open>The detector (index.ts)\<close>

subsection \<open>Configuration\<close>

record MaskingConfig =
  maskingEnabled :: bool
  pattern :: jsstring
  preserveLength :: bool
  preserveFirst :: bool
  preserveLast :: bool

datatype Algorithm = AlgTrie | AlgAho

text \<open>
  The optional fields of \<^verbatim>\<open>DetectionSettings\<close> are options: \<open>None\<close> is an absent
  field. The two numbers are integers.
\<close>

record DetectionSettings =
  levenshteinDistance :: int
  caseSensitive :: bool
  wholeWordsOnly :: bool
  customWords :: "jsstring list"
  confusableMapping :: "bool option"
  ignoreSeparators :: "jsstring list option"
  stripDiacritics :: "bool option"
  useNFKC :: "bool option"
  enableInflections :: "bool option"
  inflectionSuffixes :: "jsstring list option"
  allowlist :: "jsstring list option"
  tokenBoundedFuzzy :: "bool option"
  phraseStopwords :: "jsstring list option"
  phraseMaxSkips :: "int option"
  algorithm :: "Algorithm option"

record LanguageConfig =
  enabled :: "jsstring list"
  autoDetect :: bool
  fallback :: jsstring

record ProfanityBusterConfig =
  masking :: MaskingConfig
  detection :: DetectionSettings
  languages :: LanguageConfig

datatype LanguagesOverride = LanguageArray "jsstring list" | LanguageObject LanguageConfig

record ProfanityBusterUserConfig =
  u_masking :: "MaskingConfig option"
  u_detection :: "DetectionSettings option"
  u_languages :: "LanguagesOverride option"

definition DEFAULT_CONFIG :: ProfanityBusterConfig where
  "DEFAULT_CONFIG =
    \<lparr>masking =
       \<lparr>maskingEnabled = True, pattern = U ''*'', preserveLength = True,
        preserveFirst = True, preserveLast = False\<rparr>,
     detection =
       \<lparr>levenshteinDistance = 1, caseSensitive = False, wholeWordsOnly = False,
        customWords = [], confusableMapping = Some True,
        ignoreSeparators = Some [U '' '', U ''.'', U ''-'', U ''_'', U ''*''],
        stripDiacritics = Some True, useNFKC = Some False, enableInflections = Some True,
        inflectionSuffixes = Some [U ''s'', U ''es'', U ''ed'', U ''ing'', U ''er'', U ''ers''],
        allowlist = Some [], tokenBoundedFuzzy = Some True,
        phraseStopwords = Some [U ''of'', U ''the'', U ''a'', U ''an'', U ''and'', U ''to''],
        phraseMaxSkips = Some 2, algorithm = Some AlgTrie\<rparr>,
     languages = \<lparr>enabled = [U ''en''], autoDetect = False, fallback = U ''en''\<rparr>\<rparr>"

text \<open>
  The spread \<^verbatim>\<open>{ ...base.detection, ...override.detection, customWords: ... }\<close>: a field
  of the override that is present wins. An array is truthy, so \<^verbatim>\<open>customWords\<close> is the
  override's.
\<close>

definition orElse :: "'a option \<Rightarrow> 'a option \<Rightarrow> 'a option" where
  "orElse ov base = (case ov of Some v \<Rightarrow> Some v | None \<Rightarrow> base)"

definition mergeDetection :: "DetectionSettings \<Rightarrow> DetectionSettings \<Rightarrow> DetectionSettings" where
  "mergeDetection base ov =
    \<lparr>levenshteinDistance = levenshteinDistance ov,
     caseSensitive = caseSensitive ov,
     wholeWordsOnly = wholeWordsOnly ov,
     customWords = customWords ov,
     confusableMapping = orElse (confusableMapping ov) (confusableMapping base),
     ignoreSeparators = orElse (ignoreSeparators ov) (ignoreSeparators base),
     stripDiacritics = orElse (stripDiacritics ov) (stripDiacritics base),
     useNFKC = orElse (useNFKC ov) (useNFKC base),
     enableInflections = orElse (enableInflections ov) (enableInflections base),
     inflectionSuffixes = orElse (inflectionSuffixes ov) (inflectionSuffixes base),
     allowlist = orElse (allowlist ov) (allowlist base),
     tokenBoundedFuzzy = orElse (tokenBoundedFuzzy ov) (tokenBoundedFuzzy base),
     phraseStopwords = orElse (phraseStopwords ov) (phraseStopwords base),
     phraseMaxSkips = orElse (phraseMaxSkips ov) (phraseMaxSkips base),
     algorithm = orElse (algorithm ov) (algorithm base)\<rparr>"

definition mergeConfig ::
  "ProfanityBusterConfig \<Rightarrow> ProfanityBusterUserConfig option \<Rightarrow> ProfanityBusterConfig" where
  "mergeConfig base override =
    (case override of
       None \<Rightarrow> base
     | Some ov \<Rightarrow>
         \<lparr>masking = (case u_masking ov of None \<Rightarrow> masking base | Some m \<Rightarrow> m),
          detection = (case u_detection ov of
                         None \<Rightarrow> detection base
                       | Some d \<Rightarrow> mergeDetection (detection base) d),
          languages = (case u_languages ov of
                         None \<Rightarrow> languages base
                       | Some (LanguageArray codes) \<Rightarrow> (languages base)\<lparr>enabled := codes\<rparr>
                       | Some (LanguageObject l) \<Rightarrow> l)\<rparr>)"

subsection \<open>The instance\<close>

text \<open>
  A \<^verbatim>\<open>Map\<close> is the list of its entries and a \<^verbatim>\<open>Set\<close> the list of its members, both
  in insertion order. \<^verbatim>\<open>phraseList\<close> is a set of arrays, compared by identity, so it
  is the list of the arrays added.
\<close>

record ProfanityBuster =
  config :: ProfanityBusterConfig
  languageWordlists :: "(jsstring \<times> jsstring list) list"
  languageTries :: "(jsstring \<times> TrieNode) list"
  languageAutomata :: "(jsstring \<times> AhoCorasick) list"
  phraseTrie :: TrieNode
  phraseList :: "jsstring list list"

definition setAdd :: "'a \<Rightarrow> 'a list \<Rightarrow> 'a list" where
  "setAdd x xs = (if x \<in> set xs then xs else xs @ [x])"

definition newSet :: "'a list \<Rightarrow> 'a list" where
  "newSet xs = fold setAdd xs []"

definition slice :: "'a list \<Rightarrow> nat \<Rightarrow> nat \<Rightarrow> 'a list" where
  "slice xs a b = take (b - a) (drop a xs)"

definition detectionOptions :: "ProfanityBusterConfig \<Rightarrow> NormalizationOptions" where
  "detectionOptions cfg =
    \<lparr>n_caseSensitive = caseSensitive (detection cfg),
     n_confusableMapping = (case confusableMapping (detection cfg) of None \<Rightarrow> True | Some b \<Rightarrow> b),
     n_stripDiacritics = Some (case stripDiacritics (detection cfg) of None \<Rightarrow> True | Some b \<Rightarrow> b),
     n_useNFKC = Some (case useNFKC (detection cfg) of None \<Rightarrow> False | Some b \<Rightarrow> b),
     n_lengthPreserving = Some True,
     n_stripInvisible = Some True\<rparr>"

definition normalizeWord :: "env \<Rightarrow> ProfanityBusterConfig \<Rightarrow> jsstring \<Rightarrow> jsstring" where
  "normalizeWord e cfg word = normalizeWordWithOptions e word (detectionOptions cfg)"

definition expandWordVariants :: "env \<Rightarrow> ProfanityBusterConfig \<Rightarrow> jsstring \<Rightarrow> jsstring list" where
  "expandWordVariants e cfg word =
    (let normalized = normalizeWord e cfg word in
     if enableInflections (detection cfg) = Some True
     then fold (\<lambda>suffix variants. setAdd (normalized @ suffix) variants)
            (case inflectionSuffixes (detection cfg) of None \<Rightarrow> [] | Some s \<Rightarrow> s)
            [normalized]
     else [normalized])"

definition rebuildMatcherForLanguage :: "env \<Rightarrow> jsstring \<Rightarrow> ProfanityBuster \<Rightarrow> ProfanityBuster option" where
  "rebuildMatcherForLanguage e code st =
    (let words = (case map_of (languageWordlists st) code of None \<Rightarrow> [] | Some ws \<Rightarrow> ws) in
     if (case algorithm (detection (config st)) of None \<Rightarrow> AlgTrie | Some a \<Rightarrow> a) = AlgAho
     then
       (case Aho_build (fold (\<lambda>w ac. Aho_insertAll (expandWordVariants e (config st) w) ac)
                          words AhoCorasick_new) of
          None \<Rightarrow> None
        | Some ac \<Rightarrow>
            Some (st\<lparr>languageTries := AList.delete code (languageTries st),
                     languageAutomata := AList.update code ac (languageAutomata st)\<rparr>))
     else
       Some (st\<lparr>languageAutomata := AList.delete code (languageAutomata st),
                languageTries :=
                  AList.update code
                    (fold (\<lambda>w trie. Trie_insertAll (expandWordVariants e (config st) w) trie)
                       words emptyTrie)
                    (languageTries st)\<rparr>))"

text \<open>A loop whose body may give no result.\<close>

fun foldOpt :: "('a \<Rightarrow> 'b \<Rightarrow> 'b option) \<Rightarrow> 'a list \<Rightarrow> 'b \<Rightarrow> 'b option" where
  "foldOpt f [] s = Some s"
| "foldOpt f (x # xs) s = (case f x s of None \<Rightarrow> None | Some s' \<Rightarrow> foldOpt f xs s')"

definition loadLanguagePacks :: "env \<Rightarrow> jsstring list \<Rightarrow> ProfanityBuster \<Rightarrow> ProfanityBuster option" where
  "loadLanguagePacks e codes st =
     foldOpt
       (\<lambda>code s.
          rebuildMatcherForLanguage e code
            (s\<lparr>languageWordlists :=
                 AList.update code
                   (if code = U ''en'' then newSet (map (normalizeWord e (config s)) (EN_WORDS e))
                    else [])
                   (languageWordlists s)\<rparr>))
       codes st"

definition addCustomWords :: "env \<Rightarrow> jsstring list \<Rightarrow> ProfanityBuster \<Rightarrow> ProfanityBuster option" where
  "addCustomWords e words st =
    (if words = [] then Some st
     else
       (let targetCode = fallback (languages (config st));
            target = (case map_of (languageWordlists st) targetCode of None \<Rightarrow> [] | Some s \<Rightarrow> s);
            target' = fold (\<lambda>word t. fold setAdd (expandWordVariants e (config st) word) t)
                        words target
        in rebuildMatcherForLanguage e targetCode
             (st\<lparr>languageWordlists := AList.update targetCode target' (languageWordlists st)\<rparr>)))"

text \<open>
  The constructor. It has no \<^verbatim>\<open>throw\<close>; \<open>None\<close> can only come from the build of an
  automaton.
\<close>

definition new_ProfanityBuster :: "env \<Rightarrow> ProfanityBusterUserConfig option \<Rightarrow> ProfanityBuster option" where
  "new_ProfanityBuster e userConfig =
    (let cfg = mergeConfig DEFAULT_CONFIG userConfig;
         st0 = \<lparr>config = cfg, languageWordlists = [], languageTries = [],
                languageAutomata = [], phraseTrie = emptyTrie, phraseList = []\<rparr>
     in case loadLanguagePacks e (enabled (languages cfg)) st0 of
          None \<Rightarrow> None
        | Some st1 \<Rightarrow> addCustomWords e (customWords (detection cfg)) st1)"

subsection \<open>Management API\<close>

definition addWord :: "env \<Rightarrow> jsstring \<Rightarrow> jsstring option \<Rightarrow> ProfanityBuster \<Rightarrow> ProfanityBuster option" where
  "addWord e word language st =
    (let lang = (case language of None \<Rightarrow> fallback (languages (config st)) | Some l \<Rightarrow> l);
         set0 = (case map_of (languageWordlists st) lang of None \<Rightarrow> [] | Some s \<Rightarrow> s)
     in rebuildMatcherForLanguage e lang
          (st\<lparr>languageWordlists :=
                AList.update lang (setAdd (normalizeWord e (config st) word) set0)
                  (languageWordlists st)\<rparr>))"

text \<open>
  \<^verbatim>\<open>tokenizeWithOffsets\<close>: the matches of \<^verbatim>\<open>/[\p{L}\p{N}_]+/gu\<close>, the maximal runs of
  word code points. The scan goes over the code points from offset \<open>pos\<close>; \<open>cur\<close> is the
  run being read, with its start.
\<close>

record Token =
  t_value :: jsstring
  t_start :: nat
  t_endExclusive :: nat

fun tokenizeFrom :: "env \<Rightarrow> jsstring list \<Rightarrow> nat \<Rightarrow> (jsstring \<times> nat) option \<Rightarrow> Token list" where
  "tokenizeFrom e [] pos cur =
     (case cur of
        None \<Rightarrow> []
      | Some (v, s) \<Rightarrow> [\<lparr>t_value = v, t_start = s, t_endExclusive = pos\<rparr>])"
| "tokenizeFrom e (cp # cps) pos cur =
     (if isWordCodePoint e (codePointValue cp)
      then tokenizeFrom e cps (pos + length cp)
             (Some (case cur of None \<Rightarrow> (cp, pos) | Some (v, s) \<Rightarrow> (v @ cp, s)))
      else (case cur of
              None \<Rightarrow> []
            | Some (v, s) \<Rightarrow> [\<lparr>t_value = v, t_start = s, t_endExclusive = pos\<rparr>])
           @ tokenizeFrom e cps (pos + length cp) None)"

definition tokenizeWithOffsets :: "env \<Rightarrow> jsstring \<Rightarrow> Token list" where
  "tokenizeWithOffsets e text = tokenizeFrom e (codePoints text) 0 None"

definition addPhrase :: "env \<Rightarrow> jsstring \<Rightarrow> ProfanityBuster \<Rightarrow> ProfanityBuster" where
  "addPhrase e phrase st =
    (let tokens = map t_value (tokenizeWithOffsets e (normalizeWord e (config st) phrase)) in
     if tokens = [] then st
     else st\<lparr>phraseList := phraseList st @ [tokens],
             phraseTrie := PhraseTrie_insertAll (phraseList st @ [tokens]) (phraseTrie st)\<rparr>)"

subsection \<open>Language selection\<close>

text \<open>
  \<^verbatim>\<open>inferLikelyLanguageCodes\<close> (core/langAutoDetect.ts). The ranges lie in the Basic
  Multilingual Plane outside the surrogates, so a range matches when a unit is in it.
\<close>

definition hasUnitIn :: "jsstring \<Rightarrow> codeunit \<Rightarrow> codeunit \<Rightarrow> bool" where
  "hasUnitIn text lo hi \<longleftrightarrow> (\<exists>c \<in> set text. lo \<le> c \<and> c \<le> hi)"

definition inferLikelyLanguageCodes :: "jsstring \<Rightarrow> jsstring list" where
  "inferLikelyLanguageCodes text =
    (let r0 = [];
         r1 = (if hasUnitIn text 0x4E00 0x9FFF then setAdd (U ''zh'') r0 else r0);
         r2 = (if hasUnitIn text 0x3040 0x309F \<or> hasUnitIn text 0x30A0 0x30FF
               then setAdd (U ''ja'') r1 else r1);
         r3 = (if hasUnitIn text 0xAC00 0xD7AF then setAdd (U ''ko'') r2 else r2);
         r4 = (if hasUnitIn text 0x0400 0x04FF then setAdd (U ''ru'') r3 else r3);
         r5 = (if hasUnitIn text 0x0600 0x06FF
               then setAdd (U ''fa'') (setAdd (U ''ar'') r4) else r4);
         r6 = (if hasUnitIn text 0x0590 0x05FF then setAdd (U ''he'') r5 else r5);
         r7 = (if hasUnitIn text 0x0900 0x097F then setAdd (U ''hi'') r6 else r6);
         r8 = (if hasUnitIn text 0x0E00 0x0E7F then setAdd (U ''th'') r7 else r7)
     in r8)"

text \<open>\<^verbatim>\<open>allLanguageCodes\<close> are the keys of \<^verbatim>\<open>languageWordMap\<close>.\<close>

definition allLanguageCodes :: "env \<Rightarrow> jsstring list" where
  "allLanguageCodes e = map fst (languageWordMap e)"

definition ensureLoadedForCodes :: "env \<Rightarrow> jsstring list \<Rightarrow> ProfanityBuster \<Rightarrow> ProfanityBuster option" where
  "ensureLoadedForCodes e codes st =
     foldOpt
       (\<lambda>code s.
          if (case map_of (languageWordlists s) code of
                None \<Rightarrow> False
              | Some existingSet \<Rightarrow>
                  length existingSet > 0
                  \<and> (map_of (languageTries s) code \<noteq> None
                     \<or> map_of (languageAutomata s) code \<noteq> None))
          then Some s
          else
            (case (if code = U ''en'' then Some (EN_WORDS e)
                   else map_of (languageWordMap e) code) of
               None \<Rightarrow> Some s
             | Some words \<Rightarrow>
                 if length words = 0 then Some s
                 else rebuildMatcherForLanguage e code
                        (s\<lparr>languageWordlists :=
                             AList.update code (newSet (map (normalizeWord e (config s)) words))
                               (languageWordlists s)\<rparr>)))
       codes st"

definition selectAutoDetectLanguages ::
  "env \<Rightarrow> jsstring \<Rightarrow> ProfanityBuster \<Rightarrow> (jsstring list \<times> ProfanityBuster) option" where
  "selectAutoDetectLanguages e text st =
    (let likely = inferLikelyLanguageCodes text;
         loaded = map fst (filter (\<lambda>(c, ws). length ws > 0) (languageWordlists st));
         candidates = filter (\<lambda>c. c \<in> set loaded) likely
     in if length candidates > 0 then Some (candidates, st)
        else if length loaded > 0 then Some (loaded, st)
        else if autoDetect (languages (config st)) then
          (case ensureLoadedForCodes e (allLanguageCodes e) st of
             None \<Rightarrow> None
           | Some st' \<Rightarrow> Some (allLanguageCodes e, st'))
        else Some (enabled (languages (config st)), st))"

definition collectWordlistsForCodes ::
  "ProfanityBuster \<Rightarrow> jsstring list \<Rightarrow> (jsstring \<times> jsstring list) list" where
  "collectWordlistsForCodes st codes =
     fold (\<lambda>code active.
             case map_of (languageWordlists st) code of
               None \<Rightarrow> active
             | Some list \<Rightarrow> if length list > 0 then AList.update code list active else active)
       codes []"

subsection \<open>The stages of detect\<close>

record DetectionMatch = TrieMatch +
  word :: jsstring
  language :: jsstring

record DetectionResult =
  hasProfanity :: bool
  matches :: "DetectionMatch list"

definition toDetectionMatch :: "jsstring \<Rightarrow> jsstring \<Rightarrow> TrieMatch \<Rightarrow> DetectionMatch" where
  "toDetectionMatch textNormalized languageCode m =
     \<lparr>index = index m, length' = length' m,
      word = slice textNormalized (index m) (index m + length' m),
      language = languageCode\<rparr>"

text \<open>
  The loop over the languages of the exact stage. \<^verbatim>\<open>matches\<close> is empty until one
  language matches, and the loop stops there.
\<close>

fun exactStage ::
  "env \<Rightarrow> ProfanityBuster \<Rightarrow> jsstring \<Rightarrow> (jsstring \<times> jsstring list) list
     \<Rightarrow> DetectionMatch list option" where
  "exactStage e st textNormalized [] = Some []"
| "exactStage e st textNormalized ((languageCode, ws) # rest) =
    (let separators = newSet (case ignoreSeparators (detection (config st)) of
                                None \<Rightarrow> [] | Some s \<Rightarrow> s);
         whole = wholeWordsOnly (detection (config st))
     in if (case algorithm (detection (config st)) of None \<Rightarrow> AlgTrie | Some a \<Rightarrow> a) = AlgAho
        then
          (case map_of (languageAutomata st) languageCode of
             None \<Rightarrow> exactStage e st textNormalized rest
           | Some automaton \<Rightarrow>
               (case Aho_findAllMatches e automaton textNormalized whole separators of
                  None \<Rightarrow> None
                | Some acMatches \<Rightarrow>
                    if length acMatches > 0
                    then Some (map (toDetectionMatch textNormalized languageCode) acMatches)
                    else exactStage e st textNormalized rest))
        else
          (case map_of (languageTries st) languageCode of
             None \<Rightarrow> exactStage e st textNormalized rest
           | Some trie \<Rightarrow>
               (let trieMatches = Trie_findAllMatches e trie textNormalized whole separators
                in if length trieMatches > 0
                   then Some (map (toDetectionMatch textNormalized languageCode) trieMatches)
                   else exactStage e st textNormalized rest)))"

text \<open>
  \<^verbatim>\<open>findWordOccurrencesWithInflections\<close>. The regular expression is the escaped base
  followed by an optional group of the escaped suffixes, \<^verbatim>\<open>base(?:s1|s2|...)?\<close>: it
  matches at \<open>p\<close> when the base stands there, and the group takes the first suffix of the
  list that is not empty and follows the base, if there is one (an iteration of an optional
  group that matches the empty string is rejected, and the next alternative is tried).
  \<open>inflMatchAt\<close> is the length of the match at \<open>p\<close>.
\<close>

definition startsWithAt :: "jsstring \<Rightarrow> jsstring \<Rightarrow> nat \<Rightarrow> bool" where
  "startsWithAt text s p \<longleftrightarrow> take (length s) (drop p text) = s"

definition inflMatchAt :: "jsstring \<Rightarrow> jsstring \<Rightarrow> jsstring list \<Rightarrow> nat \<Rightarrow> nat option" where
  "inflMatchAt text base suffixes p =
    (if startsWithAt text base p
     then Some (length base
                + (case find (\<lambda>s. s \<noteq> [] \<and> startsWithAt text s (p + length base)) suffixes of
                     None \<Rightarrow> 0
                   | Some s \<Rightarrow> length s))
     else None)"

text \<open>
  \<^verbatim>\<open>regex.exec(text)\<close> with \<^verbatim>\<open>regex.lastIndex\<close> at the first element of \<open>ps\<close>: the
  first position of \<open>ps\<close> with a match, and the length of the match.
\<close>

fun regexExecFrom :: "jsstring \<Rightarrow> jsstring \<Rightarrow> jsstring list \<Rightarrow> nat list \<Rightarrow> (nat \<times> nat) option" where
  "regexExecFrom text base suffixes [] = None"
| "regexExecFrom text base suffixes (p # ps) =
     (case inflMatchAt text base suffixes p of
        Some n \<Rightarrow> Some (p, n)
      | None \<Rightarrow> regexExecFrom text base suffixes ps)"

definition regexExec :: "jsstring \<Rightarrow> jsstring \<Rightarrow> jsstring list \<Rightarrow> nat \<Rightarrow> (nat \<times> nat) option" where
  "regexExec text base suffixes lastIndex =
     regexExecFrom text base suffixes [lastIndex..<length text + 1]"

definition leftOk :: "env \<Rightarrow> jsstring \<Rightarrow> nat \<Rightarrow> bool" where
  "leftOk e text start \<longleftrightarrow> start = 0 \<or> \<not> WORD_CHAR e (text ! (start - 1))"

definition rightOk :: "env \<Rightarrow> jsstring \<Rightarrow> nat \<Rightarrow> bool" where
  "rightOk e text end \<longleftrightarrow> end \<ge> length text \<or> \<not> WORD_CHAR e (text ! end)"

text \<open>
  The loop \<^verbatim>\<open>while ((m = regex.exec(text)) !== null)\<close>. After a match the next search
  starts where the match ended; an empty match leaves \<^verbatim>\<open>lastIndex\<close> where it was, and
  the loop does not end: the function is partial, \<open>None\<close> is no result.
\<close>

partial_function (option) inflLoop ::
  "env \<Rightarrow> jsstring \<Rightarrow> jsstring \<Rightarrow> jsstring list \<Rightarrow> bool \<Rightarrow> nat \<Rightarrow> nat list \<Rightarrow> nat list option" where
  "inflLoop e text base suffixes whole lastIndex indices =
    (case regexExec text base suffixes lastIndex of
       None \<Rightarrow> Some indices
     | Some (start, n) \<Rightarrow>
         if whole \<and> (\<not> leftOk e text start \<or> \<not> rightOk e text (start + n))
         then inflLoop e text base suffixes whole (start + n) indices
         else inflLoop e text base suffixes whole (start + n) (indices @ [start]))"

declare inflLoop.simps [code]

definition findWordOccurrencesWithInflections ::
  "env \<Rightarrow> jsstring \<Rightarrow> jsstring \<Rightarrow> jsstring list \<Rightarrow> bool \<Rightarrow> nat list option" where
  "findWordOccurrencesWithInflections e text base suffixes whole =
     inflLoop e text base suffixes whole 0 []"

text \<open>
  The inflection scan. Its state is \<^verbatim>\<open>matches\<close> and the set \<^verbatim>\<open>covered\<close> of the keys
  \<^verbatim>\<open>index:length\<close>, as pairs. \<open>inflectionPush\<close> is the body of the loop over the
  occurrences of a word.
\<close>

definition inflectionPush ::
  "jsstring \<Rightarrow> jsstring \<Rightarrow> nat \<Rightarrow> DetectionMatch list \<times> (nat \<times> nat) list
     \<Rightarrow> DetectionMatch list \<times> (nat \<times> nat) list" where
  "inflectionPush languageCode w i acc =
    (case acc of (ms, covered) \<Rightarrow>
       if (i, length w) \<in> set covered then (ms, covered)
       else (ms @ [\<lparr>index = i, length' = length w, word = w, language = languageCode\<rparr>],
             covered @ [(i, length w)]))"

definition inflectionWord ::
  "env \<Rightarrow> ProfanityBuster \<Rightarrow> jsstring \<Rightarrow> jsstring \<Rightarrow> jsstring
     \<Rightarrow> DetectionMatch list \<times> (nat \<times> nat) list
     \<Rightarrow> (DetectionMatch list \<times> (nat \<times> nat) list) option" where
  "inflectionWord e st textNormalized languageCode w acc =
    (case findWordOccurrencesWithInflections e textNormalized w
            (case inflectionSuffixes (detection (config st)) of None \<Rightarrow> [] | Some s \<Rightarrow> s)
            (wholeWordsOnly (detection (config st))) of
       None \<Rightarrow> None
     | Some occ \<Rightarrow> Some (fold (inflectionPush languageCode w) occ acc))"

definition inflectionStage ::
  "env \<Rightarrow> ProfanityBuster \<Rightarrow> jsstring \<Rightarrow> (jsstring \<times> jsstring list) list
     \<Rightarrow> DetectionMatch list \<Rightarrow> DetectionMatch list option" where
  "inflectionStage e st textNormalized wordlists ms =
    (if (case enableInflections (detection (config st)) of None \<Rightarrow> True | Some b \<Rightarrow> b)
     then
       map_option fst
         (foldOpt (\<lambda>(languageCode, ws) acc.
                     foldOpt (inflectionWord e st textNormalized languageCode) ws acc)
            wordlists (ms, map (\<lambda>m. (index m, length' m)) ms))
     else Some ms)"

text \<open>The phrase stage: only the first span is used.\<close>

definition phraseStage :: "env \<Rightarrow> ProfanityBuster \<Rightarrow> jsstring \<Rightarrow> DetectionMatch list" where
  "phraseStage e st textNormalized =
    (let tokens = tokenizeWithOffsets e textNormalized;
         tokenValues = map t_value tokens;
         spans = findAllMatchesForTokens (phraseTrie st) tokenValues
                   (newSet (case phraseStopwords (detection (config st)) of
                              None \<Rightarrow> [] | Some s \<Rightarrow> s))
                   (case phraseMaxSkips (detection (config st)) of None \<Rightarrow> 0 | Some k \<Rightarrow> k)
     in case spans of
          [] \<Rightarrow> []
        | span # _ \<Rightarrow>
            (let start = (if startTokenIndex span < length tokens
                          then t_start (tokens ! startTokenIndex span) else 0);
                 endExclusive = (if endTokenIndex span < length tokens
                                 then t_endExclusive (tokens ! endTokenIndex span) else start)
             in [\<lparr>index = start, length' = endExclusive - start,
                  word = concat (map2 (\<lambda>k v. if k = 0 then v else U '' '' @ v)
                                   [0..<endTokenIndex span + 1 - startTokenIndex span]
                                   (slice tokenValues (startTokenIndex span)
                                      (endTokenIndex span + 1))),
                  language = fallback (languages (config st))\<rparr>]))"

text \<open>
  \<^verbatim>\<open>levenshtein\<close>: the table \<^verbatim>\<open>dp\<close> row by row. \<open>levRow\<close> fills row \<open>i\<close> from column
  \<open>j\<close> on, from the row before (from column \<open>j - 1\<close> on) and \<^verbatim>\<open>dp[i][j - 1]\<close>.
\<close>

fun levRow :: "codeunit \<Rightarrow> jsstring \<Rightarrow> nat list \<Rightarrow> nat \<Rightarrow> nat list" where
  "levRow ai (bj # bs) (diag # up # prevRow) left =
     (let v = min (min (up + 1) (left + 1)) (diag + (if ai = bj then 0 else 1))
      in v # levRow ai bs (up # prevRow) v)"
| "levRow ai bs prevRow left = []"

definition levenshtein :: "jsstring \<Rightarrow> jsstring \<Rightarrow> nat" where
  "levenshtein a b =
     last (fold (\<lambda>(i, ai) prevRow. i # levRow ai b prevRow i)
             (zip [1..<length a + 1] a) [0..<length b + 1])"

text \<open>
  \<^verbatim>\<open>findMinDistanceInWindow\<close>: the pair \<^verbatim>\<open>(bestIndex, bestDistance)\<close>, with \<open>None\<close>
  for \<^verbatim>\<open>(-1, Infinity)\<close>, where the result has index \<open>0\<close> and an infinite distance.
\<close>

fun minDistanceLoop :: "jsstring \<Rightarrow> jsstring \<Rightarrow> nat list \<Rightarrow> (nat \<times> nat) option \<Rightarrow> (nat \<times> nat) option" where
  "minDistanceLoop window target [] best = best"
| "minDistanceLoop window target (i # rest) best =
     (let d = levenshtein (slice window i (i + length target)) target in
      if (case best of None \<Rightarrow> True | Some (bi, bd) \<Rightarrow> d < bd)
      then (if d = 0 then Some (i, d) else minDistanceLoop window target rest (Some (i, d)))
      else minDistanceLoop window target rest best)"

definition findMinDistanceInWindow :: "jsstring \<Rightarrow> jsstring \<Rightarrow> (nat \<times> nat) option" where
  "findMinDistanceInWindow window target =
     minDistanceLoop window target
       (if length target \<le> length window then [0..<length window - length target + 1] else [])
       None"

definition scaledMaxDistance :: "ProfanityBusterConfig \<Rightarrow> jsstring \<Rightarrow> int" where
  "scaledMaxDistance cfg w =
     max 0 (min (levenshteinDistance (detection cfg)) (int (length w div 5)))"

text \<open>The loop of \<^verbatim>\<open>findApproximateOccurrence\<close> over the positions \<open>i\<close>; \<open>None\<close> is \<^verbatim>\<open>-1\<close>.\<close>

fun approximateLoop ::
  "env \<Rightarrow> bool \<Rightarrow> jsstring \<Rightarrow> jsstring \<Rightarrow> int \<Rightarrow> bool \<Rightarrow> nat list \<Rightarrow> nat option" where
  "approximateLoop e tokenBounded text w maxDistance whole [] = None"
| "approximateLoop e tokenBounded text w maxDistance whole (i # rest) =
    (if tokenBounded \<and> i > 0 \<and> WORD_CHAR e (text ! (i - 1))
     then approximateLoop e tokenBounded text w maxDistance whole rest
     else
       (case findMinDistanceInWindow
               (slice text i (min (length text) (i + nat (int (length w) + maxDistance)))) w of
          None \<Rightarrow> approximateLoop e tokenBounded text w maxDistance whole rest
        | Some (k, distance) \<Rightarrow>
            if int distance \<le> maxDistance
            then
              (let start = i + k in
               if whole
                  \<and> (\<not> leftOk e text start \<or> \<not> rightOk e text (start + length w))
               then approximateLoop e tokenBounded text w maxDistance whole rest
               else Some start)
            else approximateLoop e tokenBounded text w maxDistance whole rest))"

definition findApproximateOccurrence ::
  "env \<Rightarrow> ProfanityBusterConfig \<Rightarrow> jsstring \<Rightarrow> jsstring \<Rightarrow> int \<Rightarrow> bool \<Rightarrow> nat option" where
  "findApproximateOccurrence e cfg text w maxDistance whole =
     approximateLoop e
       (case tokenBoundedFuzzy (detection cfg) of None \<Rightarrow> True | Some b \<Rightarrow> b)
       text w maxDistance whole
       (if length w \<le> length text then [0..<length text - length w + 1] else [])"

text \<open>The fuzzy stage: the first word of the first language with an occurrence.\<close>

fun fuzzyWords ::
  "env \<Rightarrow> ProfanityBusterConfig \<Rightarrow> jsstring \<Rightarrow> jsstring \<Rightarrow> jsstring list \<Rightarrow> DetectionMatch list" where
  "fuzzyWords e cfg textNormalized languageCode [] = []"
| "fuzzyWords e cfg textNormalized languageCode (w # ws) =
     (case findApproximateOccurrence e cfg textNormalized w (scaledMaxDistance cfg w)
             (wholeWordsOnly (detection cfg)) of
        Some i \<Rightarrow> [\<lparr>index = i, length' = length w, word = w, language = languageCode\<rparr>]
      | None \<Rightarrow> fuzzyWords e cfg textNormalized languageCode ws)"

fun fuzzyStage ::
  "env \<Rightarrow> ProfanityBusterConfig \<Rightarrow> jsstring \<Rightarrow> (jsstring \<times> jsstring list) list
     \<Rightarrow> DetectionMatch list" where
  "fuzzyStage e cfg textNormalized [] = []"
| "fuzzyStage e cfg textNormalized ((languageCode, ws) # rest) =
     (let ms = fuzzyWords e cfg textNormalized languageCode ws in
      if length ms > 0 then ms else fuzzyStage e cfg textNormalized rest)"

subsection \<open>detect and sanitize\<close>

text \<open>
  \<^verbatim>\<open>detect\<close> returns its result and the instance as the call leaves it; \<open>None\<close> is no
  result.
\<close>

definition detect :: "env \<Rightarrow> jsstring \<Rightarrow> ProfanityBuster \<Rightarrow> (DetectionResult \<times> ProfanityBuster) option" where
  "detect e text st =
    (let textNormalized = normalizeForDetection e text (detectionOptions (config st)) in
     case (if autoDetect (languages (config st))
           then selectAutoDetectLanguages e textNormalized st
           else Some (enabled (languages (config st)), st)) of
       None \<Rightarrow> None
     | Some (candidateCodes, st1) \<Rightarrow>
         (let wordlists = collectWordlistsForCodes st1 candidateCodes in
          case exactStage e st1 textNormalized wordlists of
            None \<Rightarrow> None
          | Some ms0 \<Rightarrow>
              (case inflectionStage e st1 textNormalized wordlists ms0 of
                 None \<Rightarrow> None
               | Some ms1 \<Rightarrow>
                   (let ms2 = (if length ms1 = 0 \<and> length (phraseList st1) > 0
                               then ms1 @ phraseStage e st1 textNormalized else ms1);
                        ms3 = (if length ms2 = 0 \<and> levenshteinDistance (detection (config st1)) > 0
                               then ms2 @ fuzzyStage e (config st1) textNormalized wordlists
                               else ms2)
                    in Some (\<lparr>hasProfanity = length ms3 > 0, matches = ms3\<rparr>, st1)))))"

definition maskWord :: "ProfanityBusterConfig \<Rightarrow> jsstring \<Rightarrow> jsstring" where
  "maskWord cfg w =
    (if \<not> preserveLength (masking cfg)
     then concat (replicate (max 1 (length w)) (pattern (masking cfg)))
     else concat (map (\<lambda>(char, i).
                         if (preserveFirst (masking cfg) \<and> i = 0)
                            \<or> (preserveLast (masking cfg) \<and> i = length w - 1)
                         then [char] else pattern (masking cfg))
                    (zip w [0..<length w])))"

text \<open>\<^verbatim>\<open>output.splice(index, length, ...items)\<close>.\<close>

definition splice :: "'a list \<Rightarrow> nat \<Rightarrow> nat \<Rightarrow> 'a list \<Rightarrow> 'a list" where
  "splice output i n items = take i output @ items @ drop (i + n) output"

definition sanitize :: "env \<Rightarrow> jsstring \<Rightarrow> ProfanityBuster \<Rightarrow> (jsstring \<times> ProfanityBuster) option" where
  "sanitize e text st =
    (case detect e text st of
       None \<Rightarrow> None
     | Some (res, st1) \<Rightarrow>
         if \<not> hasProfanity res \<or> \<not> maskingEnabled (masking (config st1))
         then Some (text, st1)
         else
           Some (fold (\<lambda>m output.
                         splice output (index m) (length' m)
                           (maskWord (config st1)
                              (slice output (index m) (index m + length' m))))
                   (matches res) text,
                 st1))"

section \<open>A sample runtime\<close>

text \<open>
  Concrete scenarios are evaluated in a sample runtime. Its built-ins are those of
  ECMAScript on the characters the scenarios use and leave every other code unit
  unchanged: \<^verbatim>\<open>toLowerCase\<close> maps \<open>A\<close>--\<open>Z\<close> to \<open>a\<close>--\<open>z\<close> and U+0130 to the two units
  U+0069 U+0307 (Unicode SpecialCasing); NFKD maps U+2001 to U+0020; the word
  characters are the ASCII letters, the digits and the underscore, and the supplementary
  letter U+1D49C (the surrogate pair U+D835 U+DC9C).
\<close>

definition sampleLowerUnit :: "codeunit \<Rightarrow> jsstring" where
  "sampleLowerUnit c =
     (if 0x41 \<le> c \<and> c \<le> 0x5A then [c + 0x20]
      else if c = 0x130 then [0x69, 0x307]
      else [c])"

definition sampleNFKDUnit :: "codeunit \<Rightarrow> jsstring" where
  "sampleNFKDUnit c = (if c = 0x2001 then [0x20] else [c])"

definition sampleWordCodePoint :: "int \<Rightarrow> bool" where
  "sampleWordCodePoint c \<longleftrightarrow>
     (0x30 \<le> c \<and> c \<le> 0x39) \<or> (0x41 \<le> c \<and> c \<le> 0x5A) \<or> c = 0x5F
     \<or> (0x61 \<le> c \<and> c \<le> 0x7A) \<or> c = 0x1D49C"

text \<open>
  Modelled from the spec: the word tables of the language packs (\<^verbatim>\<open>src/languages/en.ts\<close>
  and the other packs, which \<^verbatim>\<open>index.ts\<close> imports) are not among the sources. The
  scenarios of the spec take \<^verbatim>\<open>shit\<close> and \<^verbatim>\<open>bitch\<close> to be in the English table; the
  sample tables hold them, a third English word and one word for each other pack. The
  sample tables serve to evaluate the code at concrete inputs; what is to hold whatever
  else the English table holds is stated for \<open>withWords ws sampleEnv\<close>, for every list
  \<open>ws\<close>.
\<close>

definition sampleEnv :: env where
  "sampleEnv =
    \<lparr>toLowerCase = (\<lambda>s. concat (map sampleLowerUnit s)),
     normalizeNFKD = (\<lambda>s. concat (map sampleNFKDUnit s)),
     normalizeNFKC = (\<lambda>s. concat (map sampleNFKDUnit s)),
     isWordCodePoint = sampleWordCodePoint,
     EN_WORDS = [U ''shit'', U ''bitch'', U ''fuck''],
     languageWordMap =
       [(U ''de'', [U ''scheisse'']), (U ''en'', [U ''shit'', U ''bitch'', U ''fuck'']),
        (U ''es'', [U ''mierda'']), (U ''fr'', [U ''merde''])]\<rparr>"

text \<open>A runtime with another English table.\<close>

definition withWords :: "jsstring list \<Rightarrow> env \<Rightarrow> env" where
  "withWords ws e = e\<lparr>EN_WORDS := ws\<rparr>"

section \<open>Scenarios and sequences of calls\<close>

text \<open>
  The detectors of the scenarios, in the sample runtime: \<^verbatim>\<open>new ProfanityBuster()\<close>,
  the same with \<^verbatim>\<open>wholeWordsOnly\<close>, and one with auto-detection and no enabled
  language.
\<close>

definition sampleDetector :: ProfanityBuster where
  "sampleDetector = the (new_ProfanityBuster sampleEnv None)"

text \<open>\<^verbatim>\<open>sanitize(sanitize(text))\<close>.\<close>

definition sanitizeTwice :: "env \<Rightarrow> jsstring \<Rightarrow> ProfanityBuster \<Rightarrow> (jsstring \<times> ProfanityBuster) option" where
  "sanitizeTwice e text st =
     (case sanitize e text st of None \<Rightarrow> None | Some (out, st1) \<Rightarrow> sanitize e out st1)"

text \<open>A user configuration that overrides the detection settings only.\<close>

definition detectionOverride :: "DetectionSettings \<Rightarrow> ProfanityBusterUserConfig option" where
  "detectionOverride d = Some \<lparr>u_masking = None, u_detection = Some d, u_languages = None\<rparr>"

definition wholeWordDetector :: ProfanityBuster where
  "wholeWordDetector =
     the (new_ProfanityBuster sampleEnv
            (detectionOverride ((detection DEFAULT_CONFIG)\<lparr>wholeWordsOnly := True\<rparr>)))"

definition autoDetectOnly :: "ProfanityBusterUserConfig option" where
  "autoDetectOnly =
     Some \<lparr>u_masking = None, u_detection = None,
           u_languages = Some (LanguageObject
             \<lparr>enabled = [], autoDetect = True, fallback = U ''en''\<rparr>)\<rparr>"

definition autoDetector :: ProfanityBuster where
  "autoDetector = the (new_ProfanityBuster sampleEnv autoDetectOnly)"

text \<open>The texts of the scenarios.\<close>

definition zeroWidthText :: jsstring where
  "zeroWidthText = [0x73, 0x200B, 0x68, 0x2001, 0x69, 0x200D, 0x74]"

definition phraseText :: jsstring where
  "phraseText = U ''you are a son of the a   bitch indeed''"

section \<open>Predicates of the properties\<close>

definition positiveOutputs :: "AhoCorasick \<Rightarrow> bool" where
  "positiveOutputs nodes \<longleftrightarrow> (\<forall>n \<in> set nodes. 0 \<notin> set (terminalLengths n))"

definition inflectedRightOk :: "env \<Rightarrow> jsstring \<Rightarrow> jsstring list \<Rightarrow> nat \<Rightarrow> bool" where
  "inflectedRightOk e tx suffixes p \<longleftrightarrow>
     rightOk e tx p
     \<or> (\<exists>s \<in> set suffixes. startsWithAt tx s p \<and> rightOk e tx (p + length s))"

text \<open>The property of a match that the boundary checks establish.\<close>

definition boundarySound :: "env \<Rightarrow> jsstring \<Rightarrow> jsstring list \<Rightarrow> DetectionMatch \<Rightarrow> bool" where
  "boundarySound e tx suffixes m \<longleftrightarrow>
     leftOk e tx (index m) \<and> inflectedRightOk e tx suffixes (index m + length' m)"

definition codePointShape :: "jsstring \<Rightarrow> bool" where
  "codePointShape cp \<longleftrightarrow>
     (\<exists>a. cp = [a]) \<or> (\<exists>a b. cp = [a, b] \<and> isHighSurrogate a \<and> isLowSurrogate b)"

text \<open>The units of a surrogate pair are not word characters in any version of Unicode.\<close>

definition surrogatesNotWord :: "env \<Rightarrow> bool" where
  "surrogatesNotWord e \<longleftrightarrow>
     (\<forall>c. isHighSurrogate c \<or> isLowSurrogate c \<longrightarrow> \<not> isWordCodePoint e c)"

definition tokenOk :: "env \<Rightarrow> jsstring \<Rightarrow> nat \<Rightarrow> Token \<Rightarrow> bool" where
  "tokenOk e tx lo t \<longleftrightarrow>
     lo \<le> t_start t \<and> t_start t \<le> t_endExclusive t
     \<and> leftOk e tx (t_start t) \<and> rightOk e tx (t_endExclusive t)"

text \<open>Every automaton of the instance has positive output lengths.\<close>

definition automataPositive :: "ProfanityBuster \<Rightarrow> bool" where
  "automataPositive st \<longleftrightarrow> (\<forall>ac \<in> snd ` set (languageAutomata st). positiveOutputs ac)"


text \<open>The word trie that \<^verbatim>\<open>rebuildMatcherForLanguage\<close> builds from a word list.\<close>

definition wordTrie :: "env \<Rightarrow> ProfanityBusterConfig \<Rightarrow> jsstring list \<Rightarrow> TrieNode" where
  "wordTrie e cfg ws =
     fold (\<lambda>w trie. Trie_insertAll (expandWordVariants e cfg w) trie) ws emptyTrie"




text \<open>The inflection scan of a word returns.\<close>

definition inflectionReturns :: "env \<Rightarrow> ProfanityBuster \<Rightarrow> jsstring \<Rightarrow> jsstring \<Rightarrow> bool" where
  "inflectionReturns e st tx w \<longleftrightarrow>
     findWordOccurrencesWithInflections e tx w
       (case inflectionSuffixes (detection (config st)) of None \<Rightarrow> [] | Some s \<Rightarrow> s)
       (wholeWordsOnly (detection (config st))) \<noteq> None"

text \<open>The words of the word lists that \<^verbatim>\<open>detect\<close> scans.\<close>

definition wordsOf :: "(jsstring \<times> jsstring list) list \<Rightarrow> jsstring set" where
  "wordsOf wordlists = (\<Union>(c, ws) \<in> set wordlists. set ws)"



text \<open>The matches of \<^verbatim>\<open>detect\<close> after the phrase stage and the fuzzy stage.\<close>

definition laterStages ::
  "env \<Rightarrow> ProfanityBuster \<Rightarrow> jsstring \<Rightarrow> (jsstring \<times> jsstring list) list
     \<Rightarrow> DetectionMatch list \<Rightarrow> DetectionMatch list" where
  "laterStages e st tn wordlists ms1 =
     (let ms2 = (if length ms1 = 0 \<and> length (phraseList st) > 0
                 then ms1 @ phraseStage e st tn else ms1);
          ms3 = (if length ms2 = 0 \<and> levenshteinDistance (detection (config st)) > 0
                 then ms2 @ fuzzyStage e (config st) tn wordlists
                 else ms2)
      in ms3)"


subsection \<open>The occurrences of the words in a text\<close>

text \<open>A string as a list of one-unit keys.\<close>

definition units :: "jsstring \<Rightarrow> jsstring list" where
  "units s = map (\<lambda>c. [c]) s"

text \<open>The node of a trie at the end of a path of keys, and the paths to terminal nodes.\<close>

fun trieLookup :: "TrieNode \<Rightarrow> jsstring list \<Rightarrow> TrieNode option" where
  "trieLookup node [] = Some node"
| "trieLookup node (k # ks) =
     (case map_of (children node) k of
        None \<Rightarrow> None
      | Some next \<Rightarrow> trieLookup next ks)"

definition trieAccepts :: "TrieNode \<Rightarrow> jsstring list \<Rightarrow> bool" where
  "trieAccepts t p \<longleftrightarrow> (case trieLookup t p of None \<Rightarrow> False | Some n \<Rightarrow> isTerminal n)"

text \<open>
  The text from position \<open>j\<close> without its separators, each unit with its index, and the
  walk of \<^verbatim>\<open>Trie.findAllMatches\<close> over such a list.
\<close>

definition compactFrom :: "jsstring \<Rightarrow> jsstring list \<Rightarrow> nat \<Rightarrow> (codeunit \<times> nat) list" where
  "compactFrom text seps j =
     filter (\<lambda>(ch, i). seps = [] \<or> [ch] \<notin> set seps) (zip (drop j text) [j..<length text])"

fun trieWalkCompact ::
  "env \<Rightarrow> jsstring \<Rightarrow> bool \<Rightarrow> TrieNode \<Rightarrow> (codeunit \<times> nat) list \<Rightarrow> nat option \<Rightarrow> nat option" where
  "trieWalkCompact e text whole node [] lst = lst"
| "trieWalkCompact e text whole node (cj # rest) lst =
     (case map_of (children node) [fst cj] of
        None \<Rightarrow> lst
      | Some next \<Rightarrow>
          trieWalkCompact e text whole next rest
            (if isTerminal next \<and> (whole \<longrightarrow> rightOk e text (snd cj + 1))
             then Some (snd cj) else lst))"

text \<open>
  An occurrence of a word, between the positions \<open>a\<close> and \<open>b\<close> of the text without its
  separators: the units from \<open>a\<close> to \<open>b\<close> are the code points of a word of the list, and the
  ends are word boundaries in the text when whole words are asked for. Its span goes from
  the index of the first unit to the index of the last one.
\<close>

definition occurrence ::
  "env \<Rightarrow> jsstring set \<Rightarrow> jsstring \<Rightarrow> bool \<Rightarrow> (codeunit \<times> nat) list \<Rightarrow> nat \<Rightarrow> nat \<Rightarrow> bool" where
  "occurrence e W text whole cs a b \<longleftrightarrow>
     a \<le> b \<and> b < length cs
     \<and> (\<exists>w\<in>W. w \<noteq> [] \<and> codePoints w = units (map fst (take (b + 1 - a) (drop a cs))))
     \<and> (whole \<longrightarrow> leftOk e text (snd (cs ! a)) \<and> rightOk e text (snd (cs ! b) + 1))"

definition spanOf :: "(codeunit \<times> nat) list \<Rightarrow> nat \<Rightarrow> nat \<Rightarrow> TrieMatch" where
  "spanOf cs a b = \<lparr>index = snd (cs ! a), length' = snd (cs ! b) - snd (cs ! a) + 1\<rparr>"

text \<open>
  The walk of the trie from a node over \<open>cs\<close> records the end of the first \<open>k\<close> units
  of \<open>cs\<close>: they lead to a terminal node, at a word boundary when whole words are asked for.
\<close>

definition walkAccepts ::
  "env \<Rightarrow> jsstring \<Rightarrow> bool \<Rightarrow> TrieNode \<Rightarrow> (codeunit \<times> nat) list \<Rightarrow> nat \<Rightarrow> bool" where
  "walkAccepts e text whole node cs k \<longleftrightarrow>
     1 \<le> k \<and> k \<le> length cs
     \<and> trieAccepts node (units (map fst (take k cs)))
     \<and> (whole \<longrightarrow> rightOk e text (snd (cs ! (k - 1)) + 1))"

subsection \<open>The invariants of the Aho--Corasick automaton\<close>

definition isSuffix :: "'a list \<Rightarrow> 'a list \<Rightarrow> bool" where
  "isSuffix q p \<longleftrightarrow> (\<exists>r. p = r @ q)"

definition isProperSuffix :: "'a list \<Rightarrow> 'a list \<Rightarrow> bool" where
  "isProperSuffix q p \<longleftrightarrow> (\<exists>r. r \<noteq> [] \<and> p = r @ q)"

definition isProperPrefix :: "'a list \<Rightarrow> 'a list \<Rightarrow> bool" where
  "isProperPrefix q p \<longleftrightarrow> (\<exists>r. r \<noteq> [] \<and> p = q @ r)"

text \<open>
  The array of nodes is a tree: \<open>ps\<close> gives the path of keys from the root to each node.
  The paths are distinct, an edge adds its key to the path and leads to a node of a higher
  index, and each node other than the root has a parent.
\<close>

definition ahoTree :: "AhoCorasick \<Rightarrow> jsstring list list \<Rightarrow> bool" where
  "ahoTree nodes ps \<longleftrightarrow>
     length ps = length nodes \<and> nodes \<noteq> [] \<and> ps ! 0 = [] \<and> distinct ps
     \<and> (\<forall>n<length nodes. distinct (map fst (achildren (nodes ! n))))
     \<and> (\<forall>n<length nodes. \<forall>k m. (k, m) \<in> set (achildren (nodes ! n)) \<longrightarrow>
            n < m \<and> m < length nodes \<and> ps ! m = ps ! n @ [k])
     \<and> (\<forall>m<length nodes. \<forall>p k. ps ! m = p @ [k] \<longrightarrow>
            (\<exists>n<length nodes. ps ! n = p \<and> (k, m) \<in> set (achildren (nodes ! n))))"

text \<open>
  The failure link of a node leads to a node whose path is a proper suffix of its own;
  each output of a node is the length of a word whose code points end the path of the
  node; the words are in the tree, and a node has the lengths of the words that end there.
\<close>

definition ahoLinks :: "AhoCorasick \<Rightarrow> jsstring list list \<Rightarrow> bool" where
  "ahoLinks nodes ps \<longleftrightarrow>
     (\<forall>n<length nodes. fail (nodes ! n) < length nodes
        \<and> (n \<noteq> 0 \<longrightarrow> isProperSuffix (ps ! fail (nodes ! n)) (ps ! n)))"

definition ahoSound :: "jsstring set \<Rightarrow> AhoCorasick \<Rightarrow> jsstring list list \<Rightarrow> bool" where
  "ahoSound W nodes ps \<longleftrightarrow>
     (\<forall>n<length nodes. \<forall>l\<in>set (terminalLengths (nodes ! n)).
        \<exists>w\<in>W. w \<noteq> [] \<and> l = length w \<and> isSuffix (codePoints w) (ps ! n))"

definition ahoOwn :: "jsstring set \<Rightarrow> AhoCorasick \<Rightarrow> jsstring list list \<Rightarrow> bool" where
  "ahoOwn W nodes ps \<longleftrightarrow>
     (\<forall>w\<in>W. w \<noteq> [] \<longrightarrow>
        (\<exists>n<length nodes. ps ! n = codePoints w \<and> length w \<in> set (terminalLengths (nodes ! n))))"

definition ahoInv :: "jsstring set \<Rightarrow> AhoCorasick \<Rightarrow> jsstring list list \<Rightarrow> bool" where
  "ahoInv W nodes ps \<longleftrightarrow>
     ahoTree nodes ps \<and> ahoLinks nodes ps \<and> ahoSound W nodes ps \<and> ahoOwn W nodes ps"

text \<open>
  A node is complete when its failure link leads to the longest proper suffix of its path
  that is a path of the tree, and its outputs have the length of every word whose code
  points end its path.
\<close>

definition goodNode :: "jsstring set \<Rightarrow> AhoCorasick \<Rightarrow> jsstring list list \<Rightarrow> nat \<Rightarrow> bool" where
  "goodNode W nodes ps n \<longleftrightarrow>
     (\<forall>q\<in>set ps. isProperSuffix q (ps ! n) \<longrightarrow> isSuffix q (ps ! fail (nodes ! n)))
     \<and> (\<forall>w\<in>W. w \<noteq> [] \<and> isSuffix (codePoints w) (ps ! n) \<longrightarrow>
           length w \<in> set (terminalLengths (nodes ! n)))"

text \<open>The number of nodes below a node, itself included, counted along the edges.\<close>

function weight :: "AhoCorasick \<Rightarrow> nat \<Rightarrow> nat" where
  "weight nodes n =
     1 + sum_list (map (\<lambda>km. if n < snd km \<and> snd km < length nodes
                             then weight nodes (snd km) else 0)
                      (achildren (nodes ! n)))"
  by pat_completeness auto
termination
  by (relation "measure (\<lambda>(nodes, n). length nodes - n)") auto

declare weight.simps [simp del]

section \<open>Properties\<close>

subsection \<open>The detectors of the scenarios\<close>

text \<open>
  The constructor returns these detectors; their word tries hold the sample words and
  their inflections. The equations let the evaluation of a scenario start from the
  detector instead of from its construction.
\<close>

lemma sampleDetector_value [code]:
  "sampleDetector =
     \<lparr>config = DEFAULT_CONFIG,
      languageWordlists = [(U ''en'', [U ''shit'', U ''bitch'', U ''fuck''])],
      languageTries =
        [(U ''en'',
          Trie_insertAll
            [U ''shit'', U ''shits'', U ''shites'', U ''shited'', U ''shiting'', U ''shiter'',
             U ''shiters'',
             U ''bitch'', U ''bitchs'', U ''bitches'', U ''bitched'', U ''bitching'',
             U ''bitcher'', U ''bitchers'',
             U ''fuck'', U ''fucks'', U ''fuckes'', U ''fucked'', U ''fucking'', U ''fucker'',
             U ''fuckers'']
            emptyTrie)],
      languageAutomata = [], phraseTrie = emptyTrie, phraseList = []\<rparr>"
  unfolding sampleDetector_def by code_simp

lemma wholeWordDetector_value [code]:
  "wholeWordDetector =
     sampleDetector
       \<lparr>config := DEFAULT_CONFIG
          \<lparr>detection := (detection DEFAULT_CONFIG)\<lparr>wholeWordsOnly := True\<rparr>\<rparr>\<rparr>"
  unfolding wholeWordDetector_def sampleDetector_def by code_simp

lemma autoDetector_value [code]:
  "autoDetector =
     \<lparr>config = DEFAULT_CONFIG
        \<lparr>languages := \<lparr>enabled = [], autoDetect = True, fallback = U ''en''\<rparr>\<rparr>,
      languageWordlists = [], languageTries = [], languageAutomata = [],
      phraseTrie = emptyTrie, phraseList = []\<rparr>"
  unfolding autoDetector_def by code_simp

lemma sampleDetector_new: "new_ProfanityBuster sampleEnv None = Some sampleDetector"
  by code_simp

lemma wholeWordDetector_new:
  "new_ProfanityBuster sampleEnv
     (detectionOverride ((detection DEFAULT_CONFIG)\<lparr>wholeWordsOnly := True\<rparr>))
   = Some wholeWordDetector"
  by code_simp

lemma autoDetector_new: "new_ProfanityBuster sampleEnv autoDetectOnly = Some autoDetector"
  by code_simp

subsection \<open>Normalization and length\<close>

lemma normalizeStep_length:
  "length (normalizeStep e si sd cm True c) = 1"
  by (simp add: normalizeStep_def Let_def split: option.splits)

lemma concat_unit_length:
  "(\<And>x. x \<in> set xs \<Longrightarrow> length (f x) = 1) \<Longrightarrow> length (concat (map f xs)) = length xs"
  by (induction xs) auto

text \<open>
  The loop of the normalizer keeps the length: with \<^verbatim>\<open>lengthPreserving\<close>, the output
  is as long as the text that enters the loop, which is the lower-cased input.
\<close>

lemma normalizeForDetection_length:
  assumes "n_lengthPreserving options \<noteq> Some False"
  shows "length (normalizeForDetection e input options)
         = length (if n_caseSensitive options then input else toLowerCase e input)"
proof -
  have lp: "(case n_lengthPreserving options of None \<Rightarrow> True | Some b \<Rightarrow> b) = True"
    using assms by (cases "n_lengthPreserving options") auto
  show ?thesis
    unfolding normalizeForDetection_def Let_def lp
    by (simp add: concat_unit_length normalizeStep_length)
qed

text \<open>
  C2. The claim: with \<^verbatim>\<open>lengthPreserving\<close>, the normalized text has as many positions
  as the input. The code lower-cases the whole input first, and \<^verbatim>\<open>toLowerCase\<close> maps
  the one unit U+0130 to the two units U+0069 U+0307: under the default options the
  one-unit input U+0130 is normalized to a text of length two.
\<close>

theorem normalizeForDetection_U0130:
  "normalizeForDetection sampleEnv [0x130] (detectionOptions DEFAULT_CONFIG) = [0x69, 0x307]
   \<and> length (normalizeForDetection sampleEnv [0x130] (detectionOptions DEFAULT_CONFIG))
       \<noteq> length [0x130 :: codeunit]"
  by code_simp

subsection \<open>The constructor\<close>

lemma rebuildMatcher_trie:
  assumes "algorithm (detection (config st)) \<noteq> Some AlgAho"
  shows "\<exists>st'. rebuildMatcherForLanguage e code st = Some st' \<and> config st' = config st
               \<and> languageWordlists st' = languageWordlists st"
proof -
  have "(case algorithm (detection (config st)) of None \<Rightarrow> AlgTrie | Some a \<Rightarrow> a) \<noteq> AlgAho"
    using assms by (cases "algorithm (detection (config st))") auto
  then show ?thesis
    by (simp add: rebuildMatcherForLanguage_def Let_def)
qed

lemma foldOpt_invariant:
  assumes "P s" and "\<And>x s. P s \<Longrightarrow> \<exists>s'. f x s = Some s' \<and> P s'"
  shows "\<exists>s'. foldOpt f xs s = Some s' \<and> P s'"
  using assms(1)
proof (induction xs arbitrary: s)
  case Nil
  then show ?case by simp
next
  case (Cons x xs)
  from assms(2)[OF Cons.prems] obtain s1 where "f x s = Some s1" "P s1" by blast
  with Cons.IH[of s1] show ?case by simp
qed

lemma loadLanguagePacks_trie:
  assumes "algorithm (detection (config st)) \<noteq> Some AlgAho"
  shows "\<exists>st'. loadLanguagePacks e codes st = Some st' \<and> config st' = config st"
proof -
  let ?P = "\<lambda>s. config s = config st"
  have "\<exists>s'. loadLanguagePacks e codes st = Some s' \<and> ?P s'"
    unfolding loadLanguagePacks_def
  proof (rule foldOpt_invariant[where P = ?P])
    show "config st = config st" by simp
  next
    fix code and s :: ProfanityBuster
    assume s: "config s = config st"
    let ?s = "s\<lparr>languageWordlists :=
                 AList.update code
                   (if code = U ''en'' then newSet (map (normalizeWord e (config s)) (EN_WORDS e))
                    else [])
                   (languageWordlists s)\<rparr>"
    have "algorithm (detection (config ?s)) \<noteq> Some AlgAho" using s assms by simp
    from rebuildMatcher_trie[OF this, of e code] s
    show "\<exists>s'. rebuildMatcherForLanguage e code ?s = Some s' \<and> config s' = config st"
      by auto
  qed
  then show ?thesis by simp
qed

lemma addCustomWords_trie:
  assumes "algorithm (detection (config st)) \<noteq> Some AlgAho"
  shows "\<exists>st'. addCustomWords e ws st = Some st' \<and> config st' = config st"
proof (cases "ws = []")
  case True
  then show ?thesis by (simp add: addCustomWords_def)
next
  case False
  let ?code = "fallback (languages (config st))"
  let ?s = "st\<lparr>languageWordlists :=
     AList.update ?code
       (fold (\<lambda>w t. fold setAdd (expandWordVariants e (config st) w) t) ws
          (case map_of (languageWordlists st) ?code of None \<Rightarrow> [] | Some s \<Rightarrow> s))
       (languageWordlists st)\<rparr>"
  have "algorithm (detection (config ?s)) \<noteq> Some AlgAho" using assms by simp
  from rebuildMatcher_trie[OF this, of e ?code] False
  show ?thesis by (auto simp: addCustomWords_def Let_def)
qed

lemma new_ProfanityBuster_trie:
  assumes "algorithm (detection (mergeConfig DEFAULT_CONFIG userConfig)) \<noteq> Some AlgAho"
  shows "\<exists>st. new_ProfanityBuster e userConfig = Some st
              \<and> config st = mergeConfig DEFAULT_CONFIG userConfig"
proof -
  let ?cfg = "mergeConfig DEFAULT_CONFIG userConfig"
  let ?st0 = "\<lparr>config = ?cfg, languageWordlists = [], languageTries = [],
                languageAutomata = [], phraseTrie = emptyTrie, phraseList = []\<rparr>"
  have a0: "algorithm (detection (config ?st0)) \<noteq> Some AlgAho" using assms by simp
  from loadLanguagePacks_trie[OF a0, of e "enabled (languages ?cfg)"]
  obtain st1 where st1: "loadLanguagePacks e (enabled (languages ?cfg)) ?st0 = Some st1"
    and c1: "config st1 = ?cfg" by auto
  have a1: "algorithm (detection (config st1)) \<noteq> Some AlgAho" using assms c1 by simp
  from addCustomWords_trie[OF a1, of e "customWords (detection ?cfg)"]
  obtain st2 where st2: "addCustomWords e (customWords (detection ?cfg)) st1 = Some st2"
    and c2: "config st2 = config st1" by auto
  show ?thesis
    using st1 st2 c1 c2 by (simp add: new_ProfanityBuster_def Let_def)
qed

text \<open>
  C9. The claim: a negative \<^verbatim>\<open>levenshteinDistance\<close> or \<^verbatim>\<open>phraseMaxSkips\<close> makes the
  constructor fail. The constructor validates nothing: with either value the sample
  runtime gets an instance, which holds the value.
\<close>

theorem constructor_negative_counterexample:
  "map_option (levenshteinDistance \<circ> detection \<circ> config)
     (new_ProfanityBuster sampleEnv
        (detectionOverride ((detection DEFAULT_CONFIG)\<lparr>levenshteinDistance := - 1\<rparr>)))
   = Some (- 1)
   \<and> map_option (phraseMaxSkips \<circ> detection \<circ> config)
       (new_ProfanityBuster sampleEnv
          (detectionOverride ((detection DEFAULT_CONFIG)\<lparr>phraseMaxSkips := Some (- 1)\<rparr>)))
     = Some (Some (- 1))"
  by code_simp

text \<open>
  C9, amended. Whatever the numbers of the detection settings are, the constructor
  returns an instance (here for the trie algorithm) whose configuration holds
  \<^verbatim>\<open>levenshteinDistance\<close> and \<^verbatim>\<open>phraseMaxSkips\<close> as given.
\<close>

theorem constructor_accepts_any_numbers:
  assumes "algorithm d \<noteq> Some AlgAho"
  shows "\<exists>st. new_ProfanityBuster e (detectionOverride d) = Some st
              \<and> levenshteinDistance (detection (config st)) = levenshteinDistance d
              \<and> phraseMaxSkips (detection (config st))
                  = orElse (phraseMaxSkips d) (Some 2)"
proof -
  have m: "detection (mergeConfig DEFAULT_CONFIG (detectionOverride d))
           = mergeDetection (detection DEFAULT_CONFIG) d"
    by (simp add: mergeConfig_def detectionOverride_def)
  have "algorithm (detection (mergeConfig DEFAULT_CONFIG (detectionOverride d))) \<noteq> Some AlgAho"
    using assms unfolding m
    by (cases "algorithm d") (simp_all add: mergeDetection_def orElse_def DEFAULT_CONFIG_def)
  from new_ProfanityBuster_trie[OF this, of e] obtain st where
    "new_ProfanityBuster e (detectionOverride d) = Some st"
    "config st = mergeConfig DEFAULT_CONFIG (detectionOverride d)" by auto
  then show ?thesis
    using m by (simp add: mergeDetection_def DEFAULT_CONFIG_def)
qed

theorem constructor_accepts_any_numbers_witness:
  "algorithm ((detection DEFAULT_CONFIG)\<lparr>levenshteinDistance := - 1\<rparr>) \<noteq> Some AlgAho
   \<and> (\<exists>st. new_ProfanityBuster sampleEnv
              (detectionOverride ((detection DEFAULT_CONFIG)\<lparr>levenshteinDistance := - 1\<rparr>))
            = Some st
          \<and> levenshteinDistance (detection (config st)) = - 1)"
proof -
  have h: "algorithm ((detection DEFAULT_CONFIG)\<lparr>levenshteinDistance := - 1\<rparr>) \<noteq> Some AlgAho"
    by (simp add: DEFAULT_CONFIG_def)
  show ?thesis
    using h constructor_accepts_any_numbers[OF h, of sampleEnv] by auto
qed

subsection \<open>Sanitize twice\<close>

text \<open>
  C4. The claim: \<^verbatim>\<open>sanitize(sanitize(text)) = sanitize(text)\<close>. On \<^verbatim>\<open>shit hit\<close> the
  default detector gives \<^verbatim>\<open>s*** hit\<close>, and on that \<^verbatim>\<open>s*******\<close>: the mask character
  is a separator that the matcher skips, so the kept \<^verbatim>\<open>s\<close> and the following \<^verbatim>\<open>hit\<close>
  match again.
\<close>

theorem sanitize_twice_counterexample:
  "sanitize sampleEnv (U ''shit hit'') sampleDetector = Some (U ''s*** hit'', sampleDetector)
   \<and> sanitizeTwice sampleEnv (U ''shit hit'') sampleDetector
     = Some (U ''s*******'', sampleDetector)"
  by code_simp

text \<open>
  C4, amended. \<^verbatim>\<open>sanitize(sanitize(text)) = sanitize(text)\<close> whenever \<^verbatim>\<open>detect\<close> finds
  nothing in \<^verbatim>\<open>sanitize(text)\<close>, or masking is disabled.
\<close>

theorem sanitize_twice_when_clean:
  assumes "sanitize e text st = Some (out, st1)"
    and "detect e out st1 = Some (r, st2)"
    and "\<not> hasProfanity r \<or> \<not> maskingEnabled (masking (config st2))"
  shows "sanitizeTwice e text st = Some (out, st2)"
  using assms by (auto simp: sanitizeTwice_def sanitize_def)

theorem sanitize_twice_when_clean_witness:
  "sanitize sampleEnv (U ''shit happens'') sampleDetector
     = Some (U ''s*** happens'', sampleDetector)
   \<and> detect sampleEnv (U ''s*** happens'') sampleDetector
     = Some (\<lparr>hasProfanity = False, matches = []\<rparr>, sampleDetector)
   \<and> sanitizeTwice sampleEnv (U ''shit happens'') sampleDetector
     = Some (U ''s*** happens'', sampleDetector)"
proof -
  have h1: "sanitize sampleEnv (U ''shit happens'') sampleDetector
              = Some (U ''s*** happens'', sampleDetector)"
    by code_simp
  have h2: "detect sampleEnv (U ''s*** happens'') sampleDetector
              = Some (\<lparr>hasProfanity = False, matches = []\<rparr>, sampleDetector)"
    by code_simp
  have h3: "\<not> hasProfanity \<lparr>hasProfanity = False, matches = []\<rparr>
            \<or> \<not> maskingEnabled (masking (config sampleDetector))"
    by simp
  from sanitize_twice_when_clean[OF h1 h2 h3] h1 h2 show ?thesis by simp
qed

subsection \<open>detect and the state of the instance\<close>

text \<open>
  C10. The claim: \<^verbatim>\<open>detect\<close> leaves the state of the instance unchanged. An instance
  with auto-detection and no loaded language has no word list; \<^verbatim>\<open>detect\<close> loads the
  packs of all known languages into it.
\<close>

theorem detect_loads_languages_counterexample:
  "languageWordlists autoDetector = []
   \<and> map_option (map fst \<circ> languageWordlists \<circ> snd) (detect sampleEnv (U ''x'') autoDetector)
     = Some [U ''de'', U ''en'', U ''es'', U ''fr'']"
  by code_simp

text \<open>
  C10, amended. \<^verbatim>\<open>detect\<close> and \<^verbatim>\<open>sanitize\<close> are functions of the state and the text,
  and they leave the state unchanged when auto-detection is off or some language has a
  nonempty word list. (Otherwise \<^verbatim>\<open>detect\<close> loads the packs of all known languages.)
\<close>

theorem detect_state_unchanged:
  assumes "\<not> autoDetect (languages (config st))
           \<or> (\<exists>ws \<in> snd ` set (languageWordlists st). ws \<noteq> [])"
  shows "(detect e text st = Some (r, st') \<longrightarrow> st' = st)
         \<and> (sanitize e text st = Some (out, st') \<longrightarrow> st' = st)"
proof -
  have sel: "autoDetect (languages (config st)) \<Longrightarrow>
             selectAutoDetectLanguages e t st = Some (c, s) \<Longrightarrow> s = st" for t c s
  proof -
    assume a: "autoDetect (languages (config st))"
      and b: "selectAutoDetectLanguages e t st = Some (c, s)"
    from a assms obtain ws where "ws \<in> snd ` set (languageWordlists st)" "ws \<noteq> []" by auto
    then have "filter (\<lambda>(c, ws). length ws > 0) (languageWordlists st) \<noteq> []"
      by (auto simp: filter_empty_conv)
    then show "s = st"
      using b by (auto simp: selectAutoDetectLanguages_def Let_def split: if_splits)
  qed
  have d: "detect e t st = Some (r', s) \<Longrightarrow> s = st" for t r' s
    using sel
    by (cases "autoDetect (languages (config st))")
       (auto simp: detect_def Let_def split: option.splits prod.splits)
  show ?thesis
    using d by (auto simp: sanitize_def split: option.splits prod.splits if_splits)
qed

theorem detect_state_unchanged_witness:
  "autoDetect (languages (config sampleDetector)) = False
   \<and> map_option snd (detect sampleEnv (U ''shit happens'') sampleDetector) = Some sampleDetector"
proof -
  have h: "\<not> autoDetect (languages (config sampleDetector))"
    by code_simp
  have "detect sampleEnv (U ''shit happens'') sampleDetector \<noteq> None"
    by code_simp
  then obtain r st' where
    d: "detect sampleEnv (U ''shit happens'') sampleDetector = Some (r, st')"
    by auto
  from h have h': "\<not> autoDetect (languages (config sampleDetector))
    \<or> (\<exists>ws \<in> snd ` set (languageWordlists sampleDetector). ws \<noteq> [])" by simp
  from detect_state_unchanged[OF h', of sampleEnv "U ''shit happens''" r st'] d
  have "st' = sampleDetector" by simp
  with d h show ?thesis by simp
qed

subsection \<open>Empty words\<close>

text \<open>
  The regular expression of the inflection scan with an empty base matches the empty
  string wherever no suffix follows, and an empty match does not move \<^verbatim>\<open>lastIndex\<close>:
  the loop over the matches does not end.
\<close>

lemma inflLoop_stuck:
  assumes "regexExec text base suffixes p = Some (p, 0)"
  shows "inflLoop e text base suffixes whole p indices = None"
proof (rule ccontr)
  assume "inflLoop e text base suffixes whole p indices \<noteq> None"
  then obtain y where y: "inflLoop e text base suffixes whole p indices = Some y" by auto
  have "regexExec text base suffixes p \<noteq> Some (p, 0)"
  proof (rule inflLoop.raw_induct
      [where P = "\<lambda>e tx base suffixes whole p indices y.
                    regexExec tx base suffixes p \<noteq> Some (p, 0)", OF _ y])
    fix loop e tx base suffixes whole lastIndex indices ea
    assume IH: "\<And>e tx base suffixes whole lastIndex indices y.
                  loop e tx base suffixes whole lastIndex indices = Some y \<Longrightarrow>
                  regexExec tx base suffixes lastIndex \<noteq> Some (lastIndex, 0)"
      and step: "(case regexExec tx base suffixes lastIndex of
                    None \<Rightarrow> Some indices
                  | Some (start, n) \<Rightarrow>
                      if whole \<and> (\<not> leftOk e tx start \<or> \<not> rightOk e tx (start + n))
                      then loop e tx base suffixes whole (start + n) indices
                      else loop e tx base suffixes whole (start + n) (indices @ [start]))
                 = Some ea"
    show "regexExec tx base suffixes lastIndex \<noteq> Some (lastIndex, 0)"
    proof
      assume r: "regexExec tx base suffixes lastIndex = Some (lastIndex, 0)"
      with step obtain indices' where
        "loop e tx base suffixes whole lastIndex indices' = Some ea"
        by (auto split: if_splits)
      from IH[OF this] r show False by simp
    qed
  qed
  with assms show False by simp
qed

lemma regexExec_empty_base:
  assumes "p \<le> length text"
  shows "\<exists>n. regexExec text [] suffixes p = Some (p, n) \<and> p + n \<le> length text"
proof -
  have up: "[p..<length text + 1] = p # [p + 1..<length text + 1]"
    using assms by (simp add: upt_conv_Cons)
  have "case find (\<lambda>s. s \<noteq> [] \<and> startsWithAt text s p) suffixes of None \<Rightarrow> True
        | Some s \<Rightarrow> p + length s \<le> length text"
  proof (cases "find (\<lambda>s. s \<noteq> [] \<and> startsWithAt text s p) suffixes")
    case None
    then show ?thesis by simp
  next
    case (Some s)
    then have "startsWithAt text s p" by (auto simp: find_Some_iff)
    then have "length (take (length s) (drop p text)) = length s"
      by (simp add: startsWithAt_def)
    then show ?thesis using Some assms by simp
  qed
  then show ?thesis
    using assms unfolding regexExec_def up
    by (auto simp: inflMatchAt_def startsWithAt_def split: option.splits)
qed

lemma inflLoop_empty_base:
  assumes "p \<le> length text"
  shows "inflLoop e text [] suffixes whole p indices = None"
  using assms
proof (induction "length text - p" arbitrary: p indices whole rule: less_induct)
  case less
  from regexExec_empty_base[OF less.prems, of suffixes] obtain n where
    r: "regexExec text [] suffixes p = Some (p, n)" and le: "p + n \<le> length text" by auto
  show ?case
  proof (cases "n = 0")
    case True
    with r show ?thesis by (simp add: inflLoop_stuck)
  next
    case False
    then have "length text - (p + n) < length text - p" using le by simp
    from less.hyps[OF this le] r show ?thesis
      by (subst inflLoop.simps) simp
  qed
qed

lemma foldOpt_None:
  assumes "x \<in> set xs" and "\<And>s. f x s = None"
  shows "foldOpt f xs s = None"
  using assms(1)
proof (induction xs arbitrary: s)
  case Nil
  then show ?case by simp
next
  case (Cons a xs)
  then show ?case using assms(2) by (cases "f a s") auto
qed

lemma inflectionStage_empty_word:
  assumes "enableInflections (detection (config st)) \<noteq> Some False"
    and "(code, ws) \<in> set wordlists" and "[] \<in> set ws"
  shows "inflectionStage e st textNormalized wordlists ms = None"
proof -
  have en: "(case enableInflections (detection (config st)) of None \<Rightarrow> True | Some b \<Rightarrow> b)"
    using assms(1) by (cases "enableInflections (detection (config st))") auto
  have w: "inflectionWord e st textNormalized c [] acc = None" for c acc
    by (simp add: inflectionWord_def findWordOccurrencesWithInflections_def inflLoop_empty_base)
  have inner: "foldOpt (inflectionWord e st textNormalized code) ws acc = None" for acc
    by (rule foldOpt_None[OF assms(3)]) (rule w)
  have "foldOpt (\<lambda>(languageCode, ws) acc.
                   foldOpt (inflectionWord e st textNormalized languageCode) ws acc)
          wordlists acc = None" for acc
    by (rule foldOpt_None[OF assms(2)]) (simp add: inner)
  then show ?thesis using en by (simp add: inflectionStage_def)
qed

lemma detect_empty_word:
  assumes "\<not> autoDetect (languages (config st))"
    and "enableInflections (detection (config st)) \<noteq> Some False"
    and "(code, ws) \<in> set (collectWordlistsForCodes st (enabled (languages (config st))))"
    and "[] \<in> set ws"
  shows "detect e text st = None"
  using assms(1) inflectionStage_empty_word[OF assms(2) assms(3) assms(4)]
  by (simp add: detect_def Let_def split: option.splits)

lemma addWord_trie:
  assumes "algorithm (detection (config st)) \<noteq> Some AlgAho"
  shows "\<exists>st'. addWord e w None st = Some st' \<and> config st' = config st
           \<and> languageWordlists st'
               = AList.update (fallback (languages (config st)))
                   (setAdd (normalizeWord e (config st) w)
                      (case map_of (languageWordlists st) (fallback (languages (config st))) of
                         None \<Rightarrow> [] | Some s \<Rightarrow> s))
                   (languageWordlists st)"
proof -
  let ?lang = "fallback (languages (config st))"
  let ?s = "st\<lparr>languageWordlists :=
                AList.update ?lang
                  (setAdd (normalizeWord e (config st) w)
                     (case map_of (languageWordlists st) ?lang of None \<Rightarrow> [] | Some s \<Rightarrow> s))
                  (languageWordlists st)\<rparr>"
  have "algorithm (detection (config ?s)) \<noteq> Some AlgAho" using assms by simp
  from rebuildMatcher_trie[OF this, of e ?lang]
  show ?thesis by (auto simp: addWord_def Let_def)
qed

lemma sampleDetector_wordlists:
  "languageWordlists sampleDetector = [(U ''en'', [U ''shit'', U ''bitch'', U ''fuck''])]
   \<and> config sampleDetector = DEFAULT_CONFIG"
  by code_simp

text \<open>
  C8. The claim: a word that is empty after normalization is dropped, and no stage of
  \<^verbatim>\<open>detect\<close> processes an empty pattern. \<^verbatim>\<open>addWord("")\<close> on the default detector adds
  the empty string to the English word list, and \<^verbatim>\<open>detect\<close> then gives no result: the
  inflection scan takes the empty word as its base.
\<close>

theorem addWord_empty_word_kept:
  "map_option languageWordlists (addWord sampleEnv [] None sampleDetector)
     = Some [(U ''en'', [U ''shit'', U ''bitch'', U ''fuck'', []])]
   \<and> Option.bind (addWord sampleEnv [] None sampleDetector) (detect sampleEnv (U ''x'')) = None"
proof -
  have alg: "algorithm (detection (config sampleDetector)) \<noteq> Some AlgAho"
    by (simp add: sampleDetector_wordlists DEFAULT_CONFIG_def)
  have n: "normalizeWord sampleEnv DEFAULT_CONFIG [] = []"
    by code_simp
  have f: "fallback (languages DEFAULT_CONFIG) = U ''en''"
    by (simp add: DEFAULT_CONFIG_def)
  have u: "AList.update (U ''en'')
             (setAdd [] (case map_of [(U ''en'', [U ''shit'', U ''bitch'', U ''fuck''])] (U ''en'') of
                           None \<Rightarrow> [] | Some s \<Rightarrow> s))
             [(U ''en'', [U ''shit'', U ''bitch'', U ''fuck''])]
           = [(U ''en'', [U ''shit'', U ''bitch'', U ''fuck'', []])]"
    by (simp add: setAdd_def U_def)
  from addWord_trie[OF alg, of sampleEnv "[]"] obtain st where
    a: "addWord sampleEnv [] None sampleDetector = Some st"
    and c: "config st = DEFAULT_CONFIG"
    and w: "languageWordlists st = [(U ''en'', [U ''shit'', U ''bitch'', U ''fuck'', []])]"
    unfolding sampleDetector_wordlists[THEN conjunct1] sampleDetector_wordlists[THEN conjunct2] n f u
    by auto
  have h1: "\<not> autoDetect (languages (config st))"
    by (simp add: c DEFAULT_CONFIG_def)
  have h2: "enableInflections (detection (config st)) \<noteq> Some False"
    by (simp add: c DEFAULT_CONFIG_def)
  have h3: "(U ''en'', [U ''shit'', U ''bitch'', U ''fuck'', []])
            \<in> set (collectWordlistsForCodes st (enabled (languages (config st))))"
    by (simp add: collectWordlistsForCodes_def c w DEFAULT_CONFIG_def)
  have "detect sampleEnv (U ''x'') st = None"
    by (rule detect_empty_word[OF h1 h2 h3]) simp
  with a w show ?thesis by simp
qed

subsection \<open>Whole-word boundaries\<close>

lemma in_map_filter:
  "y \<in> set (List.map_filter f xs) \<longleftrightarrow> (\<exists>x \<in> set xs. f x = Some y)"
  by (induction xs) (auto split: option.splits)

lemma trieWalk_right:
  assumes "whole" and "trieWalk e tx whole seps node j lst = Some l"
  shows "lst = Some l \<or> (j \<le> l \<and> rightOk e tx (l + 1))"
  using assms
proof (induction e tx whole seps node j lst rule: trieWalk.induct)
  case (1 e tx whole seps node j lst)
  show ?case
  proof (cases "j < length tx")
    case False
    with "1.prems" show ?thesis by (simp add: trieWalk.simps)
  next
    case True
    note j = True
    show ?thesis
    proof (cases "seps \<noteq> [] \<and> [tx ! j] \<in> set seps")
      case True
      from j True have "trieWalk e tx whole seps node j lst
          = trieWalk e tx whole seps node (j + 1) lst"
        by (subst trieWalk.simps) (auto simp: Let_def)
      with "1.prems" have "trieWalk e tx whole seps node (j + 1) lst = Some l"
        by simp
      from "1.IH"(1)[OF j refl True "1.prems"(1) this] show ?thesis by auto
    next
      case False
      note sep = False
      show ?thesis
      proof (cases "map_of (children node) [tx ! j]")
        case None
        with j sep have "trieWalk e tx whole seps node j lst = lst"
          by (subst trieWalk.simps) (auto simp: Let_def)
        with "1.prems" show ?thesis by simp
      next
        case (Some nx)
        let ?last = "(if isTerminal nx then
                    (if whole then
                       (if j + 1 < length tx \<and> WORD_CHAR e (tx ! (j + 1))
                        then lst else Some j)
                     else Some j)
                  else lst)"
        from j sep Some have "trieWalk e tx whole seps node j lst
            = trieWalk e tx whole seps nx (j + 1) ?last"
          by (subst trieWalk.simps) (auto simp: Let_def)
        with "1.prems" have w: "trieWalk e tx whole seps nx (j + 1) ?last = Some l"
          by simp
        from "1.IH"(2)[OF j refl sep Some "1.prems"(1) w]
        have "?last = Some l \<or> (j + 1 \<le> l \<and> rightOk e tx (l + 1))" .
        then show ?thesis
          using "1.prems"(1) by (auto simp: rightOk_def split: if_splits)
      qed
    qed
  qed
qed

lemma trieStart_boundary:
  assumes "whole" and "trieStart e text whole seps root s = Some m"
  shows "leftOk e text (index m) \<and> rightOk e text (index m + length' m)"
proof -
  from assms(2) obtain l where
    w: "trieWalk e text whole seps root s None = Some l"
    and m: "m = \<lparr>index = s, length' = l - s + 1\<rparr>"
    and left: "\<not> (whole \<and> s > 0 \<and> WORD_CHAR e (text ! (s - 1)))"
    by (auto simp: trieStart_def split: if_splits option.splits)
  from trieWalk_right[OF assms(1) w] have "s \<le> l" "rightOk e text (l + 1)" by auto
  with m left assms(1) show ?thesis by (auto simp: leftOk_def)
qed

lemma Trie_findAllMatches_boundary:
  assumes "whole" and "m \<in> set (Trie_findAllMatches e root text whole seps)"
  shows "leftOk e text (index m) \<and> rightOk e text (index m + length' m)"
proof -
  from assms(2) obtain s where "trieStart e text whole seps root s = Some m"
    by (auto simp: Trie_findAllMatches_def in_map_filter)
  from trieStart_boundary[OF assms(1) this] show ?thesis .
qed

lemma compactText_sorted: "sorted (map snd (compactText text seps))"
proof -
  have "sorted (map snd (zip text [0..<length text]))" by simp
  then show ?thesis
    unfolding compactText_def by (auto intro: sorted_filter)
qed

lemma ahoOutputs_boundary:
  assumes "sorted toOrig" and "i < length toOrig" and "0 \<notin> set outputs"
    and "m \<in> set (ahoOutputs e text True toOrig i outputs)"
  shows "leftOk e text (index m) \<and> rightOk e text (index m + length' m)"
proof -
  from assms(4) obtain len where len: "len \<in> set outputs" and le: "\<not> i + 1 < len"
    and ok: "leftOk e text (toOrig ! (i + 1 - len))" "rightOk e text (toOrig ! i + 1)"
    and m: "m = \<lparr>index = toOrig ! (i + 1 - len), length' = toOrig ! i - toOrig ! (i + 1 - len) + 1\<rparr>"
    by (auto simp: ahoOutputs_def in_map_filter Let_def leftOk_def rightOk_def split: if_splits)
  from len assms(3) have "len \<noteq> 0" by metis
  then have "len > 0" by simp
  with le have "i + 1 - len \<le> i" by simp
  from sorted_nth_mono[OF assms(1) this assms(2)] have "toOrig ! (i + 1 - len) \<le> toOrig ! i" .
  with m ok show ?thesis by simp
qed

lemma ahoScan_boundary:
  assumes "sorted toOrig" and "positiveOutputs nodes"
    and "i + length cs = length toOrig"
    and "ahoScan e nodes text True toOrig cs i state = Some ms"
    and "m \<in> set ms"
  shows "leftOk e text (index m) \<and> rightOk e text (index m + length' m)"
  using assms(3-5)
proof (induction cs arbitrary: i state ms)
  case Nil
  then show ?case by simp
next
  case (Cons c cs)
  have "\<exists>state' rest. state' < length nodes
      \<and> ahoScan e nodes text True toOrig cs (i + 1) state' = Some rest
      \<and> ms = ahoOutputs e text True toOrig i (terminalLengths (nodes ! state')) @ rest"
  proof (cases "followFail nodes [c] state")
    case None
    with Cons.prems(2) show ?thesis by simp
  next
    case (Some s0)
    define state' where
      "state' = (case map_of (achildren (nodes ! s0)) [c] of Some nx \<Rightarrow> nx | None \<Rightarrow> s0)"
    from Some Cons.prems(2) have s0: "s0 < length nodes"
      by (auto split: if_splits)
    with Some Cons.prems(2) have st: "state' < length nodes"
      by (auto simp: state'_def Let_def split: if_splits)
    with Some s0 Cons.prems(2) obtain rest where
      "ahoScan e nodes text True toOrig cs (i + 1) state' = Some rest"
      "ms = ahoOutputs e text True toOrig i (terminalLengths (nodes ! state')) @ rest"
      by (auto simp: state'_def[symmetric] Let_def split: option.splits)
    with st show ?thesis by blast
  qed
  then obtain state' rest where
    st: "state' < length nodes"
    and r: "ahoScan e nodes text True toOrig cs (i + 1) state' = Some rest"
    and ms: "ms = ahoOutputs e text True toOrig i (terminalLengths (nodes ! state')) @ rest"
    by blast
  from st assms(2) have pos: "0 \<notin> set (terminalLengths (nodes ! state'))"
    by (auto simp: positiveOutputs_def)
  from Cons.prems(1) have i: "i < length toOrig" and i': "i + 1 + length cs = length toOrig" by auto
  from Cons.prems(3) ms consider
    "m \<in> set (ahoOutputs e text True toOrig i (terminalLengths (nodes ! state')))" | "m \<in> set rest"
    by auto
  then show ?case
  proof cases
    case 1
    from ahoOutputs_boundary[OF assms(1) i pos 1] show ?thesis .
  next
    case 2
    from Cons.IH[OF i' r 2] show ?thesis .
  qed
qed

lemma Aho_findAllMatches_boundary:
  assumes "positiveOutputs nodes"
    and "Aho_findAllMatches e nodes text True seps = Some ms" and "m \<in> set ms"
  shows "leftOk e text (index m) \<and> rightOk e text (index m + length' m)"
proof -
  let ?c = "compactText text seps"
  from assms(2) have s: "ahoScan e nodes text True (map snd ?c) (map fst ?c) 0 0 = Some ms"
    by (simp add: Aho_findAllMatches_def Let_def)
  have "0 + length (map fst ?c) = length (map snd ?c)" by simp
  from ahoScan_boundary[OF compactText_sorted assms(1) this s assms(3)] show ?thesis .
qed

lemma approximateLoop_boundary:
  assumes "approximateLoop e tb text w maxDistance True ps = Some start"
  shows "leftOk e text start \<and> rightOk e text (start + length w)"
  using assms
proof (induction ps)
  case Nil
  then show ?case by simp
next
  case (Cons i ps)
  then show ?case
    by (auto simp: Let_def split: if_splits option.splits prod.splits)
qed

lemma foldOpt_preserves:
  assumes "foldOpt f xs s = Some s'" and "P s"
    and step: "\<And>x s s'. P s \<Longrightarrow> f x s = Some s' \<Longrightarrow> P s'"
  shows "P s'"
  using assms(1,2)
proof (induction xs arbitrary: s)
  case Nil
  then show ?case by simp
next
  case (Cons x xs)
  from Cons.prems(1) obtain s1 where s1: "f x s = Some s1" "foldOpt f xs s1 = Some s'"
    by (auto split: option.splits)
  from step[OF Cons.prems(2) s1(1)] have "P s1" .
  from Cons.IH[OF s1(2) this] show ?case .
qed

lemma regexExecFrom_Some:
  "regexExecFrom tx base suffixes ps = Some (start, n) \<Longrightarrow>
   inflMatchAt tx base suffixes start = Some n"
  by (induction ps) (auto split: option.splits)

lemma inflMatchAt_Some:
  assumes "inflMatchAt tx base suffixes p = Some n"
  shows "n = length base
         \<or> (\<exists>s \<in> set suffixes. startsWithAt tx s (p + length base) \<and> n = length base + length s)"
proof (cases "find (\<lambda>s. s \<noteq> [] \<and> startsWithAt tx s (p + length base)) suffixes")
  case None
  with assms show ?thesis by (auto simp: inflMatchAt_def split: if_splits)
next
  case (Some s)
  then have "s \<in> set suffixes" "startsWithAt tx s (p + length base)"
    by (auto simp: find_Some_iff)
  with assms Some show ?thesis by (auto simp: inflMatchAt_def split: if_splits)
qed

lemma inflLoop_indices:
  assumes "inflLoop e tx base suffixes True p indices = Some out"
  shows "\<forall>i \<in> set out. i \<in> set indices
           \<or> (leftOk e tx i \<and> inflectedRightOk e tx suffixes (i + length base))"
proof -
  let ?Q = "\<lambda>e tx base suffixes i.
              leftOk e tx i \<and> inflectedRightOk e tx suffixes (i + length base)"
  have "True \<longrightarrow> (\<forall>i \<in> set out. i \<in> set indices \<or> ?Q e tx base suffixes i)"
  proof (rule inflLoop.raw_induct
      [where P = "\<lambda>e tx base suffixes whole p indices out.
                    whole \<longrightarrow> (\<forall>i \<in> set out. i \<in> set indices \<or> ?Q e tx base suffixes i)",
       OF _ assms])
    fix loop e tx base suffixes whole lastIndex indices ea
    assume IH: "\<And>e tx base suffixes whole lastIndex indices y.
                  loop e tx base suffixes whole lastIndex indices = Some y \<Longrightarrow>
                  whole \<longrightarrow> (\<forall>i \<in> set y. i \<in> set indices \<or> ?Q e tx base suffixes i)"
      and step: "(case regexExec tx base suffixes lastIndex of
                    None \<Rightarrow> Some indices
                  | Some (start, n) \<Rightarrow>
                      if whole \<and> (\<not> leftOk e tx start \<or> \<not> rightOk e tx (start + n))
                      then loop e tx base suffixes whole (start + n) indices
                      else loop e tx base suffixes whole (start + n) (indices @ [start]))
                 = Some ea"
    show "whole \<longrightarrow> (\<forall>i \<in> set ea. i \<in> set indices \<or> ?Q e tx base suffixes i)"
    proof (cases "regexExec tx base suffixes lastIndex")
      case None
      with step show ?thesis by auto
    next
      case (Some sn)
      obtain start n where sn: "sn = (start, n)" by (cases sn)
      from Some sn have m: "inflMatchAt tx base suffixes start = Some n"
        by (auto simp: regexExec_def dest: regexExecFrom_Some)
      show ?thesis
      proof (intro impI)
        assume w: whole
        show "\<forall>i \<in> set ea. i \<in> set indices \<or> ?Q e tx base suffixes i"
        proof (cases "\<not> leftOk e tx start \<or> \<not> rightOk e tx (start + n)")
          case True
          with step Some sn w have "loop e tx base suffixes whole (start + n) indices = Some ea"
            by simp
          from IH[OF this] w show ?thesis by simp
        next
          case False
          with step Some sn w
          have "loop e tx base suffixes whole (start + n) (indices @ [start]) = Some ea"
            by simp
          from IH[OF this] w
          have a: "\<forall>i \<in> set ea. i \<in> set (indices @ [start]) \<or> ?Q e tx base suffixes i"
            by simp
          from False have l: "leftOk e tx start" and r: "rightOk e tx (start + n)" by auto
          from inflMatchAt_Some[OF m] r have "inflectedRightOk e tx suffixes (start + length base)"
            by (auto simp: inflectedRightOk_def add.assoc)
          with l a show ?thesis by auto
        qed
      qed
    qed
  qed
  then show ?thesis by simp
qed

lemma boundarySoundI:
  "leftOk e tx (index m) \<Longrightarrow> rightOk e tx (index m + length' m) \<Longrightarrow> boundarySound e tx suffixes m"
  by (simp add: boundarySound_def inflectedRightOk_def)

lemma inflection_fold_sound:
  assumes "\<forall>m \<in> set (fst acc). boundarySound e tx suffixes m"
    and "\<forall>i \<in> set occ. leftOk e tx i \<and> inflectedRightOk e tx suffixes (i + length w)"
  shows "\<forall>m \<in> set (fst (fold (inflectionPush code w) occ acc)). boundarySound e tx suffixes m"
  using assms
proof (induction occ arbitrary: acc)
  case Nil
  then show ?case by simp
next
  case (Cons i occ)
  obtain ms covered where acc: "acc = (ms, covered)" by (cases acc)
  from Cons.prems(2) have i: "leftOk e tx i" "inflectedRightOk e tx suffixes (i + length w)"
    and occ: "\<forall>i \<in> set occ. leftOk e tx i \<and> inflectedRightOk e tx suffixes (i + length w)"
    by auto
  have "\<forall>m \<in> set (fst (inflectionPush code w i acc)). boundarySound e tx suffixes m"
    using Cons.prems(1) i acc by (auto simp: boundarySound_def inflectionPush_def)
  from Cons.IH[OF this occ] show ?case by simp
qed

lemma inflectionWord_sound:
  assumes "wholeWordsOnly (detection (config st))"
    and "inflectionWord e st tx code w acc = Some acc'"
    and "\<forall>m \<in> set (fst acc). boundarySound e tx
            (case inflectionSuffixes (detection (config st)) of None \<Rightarrow> [] | Some s \<Rightarrow> s) m"
  shows "\<forall>m \<in> set (fst acc'). boundarySound e tx
            (case inflectionSuffixes (detection (config st)) of None \<Rightarrow> [] | Some s \<Rightarrow> s) m"
proof -
  let ?suf = "(case inflectionSuffixes (detection (config st)) of None \<Rightarrow> [] | Some s \<Rightarrow> s)"
  from assms(1,2) obtain occ where
    occ: "inflLoop e tx w ?suf True 0 [] = Some occ"
    and acc': "acc' = fold (inflectionPush code w) occ acc"
    by (auto simp: inflectionWord_def findWordOccurrencesWithInflections_def split: option.splits)
  from inflLoop_indices[OF occ]
  have "\<forall>i \<in> set occ. leftOk e tx i \<and> inflectedRightOk e tx ?suf (i + length w)" by simp
  from inflection_fold_sound[OF assms(3) this] acc' show ?thesis by simp
qed

lemma inflectionStage_sound:
  assumes "wholeWordsOnly (detection (config st))"
    and "inflectionStage e st tx wordlists ms = Some ms'"
    and "\<forall>m \<in> set ms. boundarySound e tx
            (case inflectionSuffixes (detection (config st)) of None \<Rightarrow> [] | Some s \<Rightarrow> s) m"
  shows "\<forall>m \<in> set ms'. boundarySound e tx
            (case inflectionSuffixes (detection (config st)) of None \<Rightarrow> [] | Some s \<Rightarrow> s) m"
proof (cases "(case enableInflections (detection (config st)) of None \<Rightarrow> True | Some b \<Rightarrow> b)")
  case False
  with assms show ?thesis by (simp add: inflectionStage_def)
next
  case True
  let ?suf = "(case inflectionSuffixes (detection (config st)) of None \<Rightarrow> [] | Some s \<Rightarrow> s)"
  let ?P = "\<lambda>acc :: DetectionMatch list \<times> (nat \<times> nat) list.
              \<forall>m \<in> set (fst acc). boundarySound e tx ?suf m"
  from True assms(2) obtain acc' where
    f: "foldOpt (\<lambda>(languageCode, ws) acc.
                     foldOpt (inflectionWord e st tx languageCode) ws acc)
            wordlists (ms, map (\<lambda>m. (index m, length' m)) ms) = Some acc'"
    and ms': "ms' = fst acc'"
    by (auto simp: inflectionStage_def)
  have "?P acc'"
  proof (rule foldOpt_preserves[OF f, where P = ?P])
    show "?P (ms, map (\<lambda>m. (index m, length' m)) ms)" using assms(3) by simp
  next
    fix x and s s' :: "DetectionMatch list \<times> (nat \<times> nat) list"
    assume s: "?P s"
      and x: "(case x of (languageCode, ws) \<Rightarrow>
                 foldOpt (inflectionWord e st tx languageCode) ws) s = Some s'"
    obtain code ws where xx: "x = (code, ws)" by (cases x)
    with x have g: "foldOpt (inflectionWord e st tx code) ws s = Some s'" by simp
    show "?P s'"
    proof (rule foldOpt_preserves[OF g, where P = ?P])
      show "?P s" by (rule s)
    next
      fix w and a a' :: "DetectionMatch list \<times> (nat \<times> nat) list"
      assume "?P a" "inflectionWord e st tx code w a = Some a'"
      with inflectionWord_sound[OF assms(1) this(2)] show "?P a'" by simp
    qed
  qed
  with ms' show ?thesis by simp
qed

lemma codePoints_shape: "cp \<in> set (codePoints s) \<Longrightarrow> codePointShape cp"
  by (induction s rule: codePoints.induct) (auto simp: codePointShape_def split: if_splits)

lemma concat_codePoints: "concat (codePoints s) = s"
  by (induction s rule: codePoints.induct) auto

lemma nonword_codePoint:
  assumes "surrogatesNotWord e" and "codePointShape cp"
    and "\<not> isWordCodePoint e (codePointValue cp)"
  shows "\<not> WORD_CHAR e (hd cp) \<and> \<not> WORD_CHAR e (last cp)"
  using assms
  by (auto simp: codePointShape_def surrogatesNotWord_def WORD_CHAR_def codePointValue_def)

lemma tokenizeFrom_tokens:
  assumes "surrogatesNotWord e"
    and "\<forall>cp \<in> set cps. codePointShape cp"
    and "tx = pre @ concat cps" and "pos = length pre"
    and "case cur of None \<Rightarrow> leftOk e tx pos | Some (v, s) \<Rightarrow> s \<le> pos \<and> leftOk e tx s"
  shows "(\<forall>t \<in> set (tokenizeFrom e cps pos cur).
            tokenOk e tx (case cur of None \<Rightarrow> pos | Some (v, s) \<Rightarrow> s) t)
         \<and> sorted_wrt (\<lambda>t u. t_endExclusive t \<le> t_start u) (tokenizeFrom e cps pos cur)"
  using assms(2-5)
proof (induction cps arbitrary: pre pos cur)
  case Nil
  then show ?case
    by (auto simp: tokenOk_def rightOk_def split: option.splits)
next
  case (Cons cp cps)
  from Cons.prems(1) have shape: "codePointShape cp" and shapes: "\<forall>cp \<in> set cps. codePointShape cp"
    by auto
  from shape have ne: "cp \<noteq> []" by (auto simp: codePointShape_def)
  let ?pos' = "pos + length cp"
  have tx': "tx = (pre @ cp) @ concat cps" using Cons.prems(2) by simp
  have pos': "?pos' = length (pre @ cp)" using Cons.prems(3) by simp
  have at_pos: "tx ! pos = hd cp"
    using Cons.prems(2,3) ne by (simp add: nth_append hd_conv_nth)
  have before: "tx ! (?pos' - 1) = last cp"
  proof -
    have "pre @ cp \<noteq> []" using ne by simp
    then have "last (pre @ cp) = (pre @ cp) ! (length (pre @ cp) - 1)"
      by (rule last_conv_nth)
    moreover have "length (pre @ cp) - 1 < length (pre @ cp)" using ne by simp
    then have "tx ! (length (pre @ cp) - 1) = (pre @ cp) ! (length (pre @ cp) - 1)"
      unfolding tx' by (rule nth_append_left)
    ultimately show ?thesis using ne pos' by simp
  qed
  have pos_lt: "pos < length tx" using Cons.prems(2,3) ne by simp
  show ?case
  proof (cases "isWordCodePoint e (codePointValue cp)")
    case True
    let ?cur' = "Some (case cur of None \<Rightarrow> (cp, pos) | Some (v, s) \<Rightarrow> (v @ cp, s))"
    have c: "case ?cur' of None \<Rightarrow> leftOk e tx ?pos'
             | Some (v, s) \<Rightarrow> s \<le> ?pos' \<and> leftOk e tx s"
      using Cons.prems(4) by (auto split: option.splits)
    from Cons.IH[OF shapes tx' pos' c] True show ?thesis
      by (auto split: option.splits)
  next
    case False
    from nonword_codePoint[OF assms(1) shape False]
    have nw: "\<not> WORD_CHAR e (hd cp)" "\<not> WORD_CHAR e (last cp)" by auto
    have c: "case None of None \<Rightarrow> leftOk e tx ?pos'
             | Some (v, s) \<Rightarrow> s \<le> ?pos' \<and> leftOk e tx s"
      using nw(2) before by (simp add: leftOk_def)
    from Cons.IH[OF shapes tx' pos' c]
    have rest: "\<forall>t \<in> set (tokenizeFrom e cps ?pos' None). tokenOk e tx ?pos' t"
      and srt: "sorted_wrt (\<lambda>t u. t_endExclusive t \<le> t_start u) (tokenizeFrom e cps ?pos' None)"
      by auto
    have r: "rightOk e tx pos" using nw(1) at_pos by (simp add: rightOk_def)
    show ?thesis
    proof (cases cur)
      case None
      with False rest srt show ?thesis by (auto simp: tokenOk_def)
    next
      case (Some vs)
      obtain v s where vs: "vs = (v, s)" by (cases vs)
      from Some vs Cons.prems(4) have s: "s \<le> pos" "leftOk e tx s" by auto
      with Some vs False rest srt r show ?thesis
        by (auto simp: tokenOk_def)
    qed
  qed
qed

lemma tokenizeWithOffsets_tokens:
  assumes "surrogatesNotWord e"
  shows "(\<forall>t \<in> set (tokenizeWithOffsets e tx). tokenOk e tx 0 t)
         \<and> sorted_wrt (\<lambda>t u. t_endExclusive t \<le> t_start u) (tokenizeWithOffsets e tx)"
proof -
  have a: "\<forall>cp \<in> set (codePoints tx). codePointShape cp" by (simp add: codePoints_shape)
  have b: "tx = [] @ concat (codePoints tx)" by (simp add: concat_codePoints)
  have c: "case None of None \<Rightarrow> leftOk e tx 0 | Some (v, s) \<Rightarrow> s \<le> 0 \<and> leftOk e tx s"
    by (simp add: leftOk_def)
  from tokenizeFrom_tokens[OF assms a b _ c] show ?thesis
    by (simp add: tokenizeWithOffsets_def)
qed

lemma phraseWalk_range:
  "phraseWalk node stop k ts i skips = Some en \<Longrightarrow> i \<le> en \<and> en < i + length ts"
proof (induction ts arbitrary: node i skips)
  case Nil
  then show ?case by simp
next
  case (Cons t ts)
  show ?case
  proof (cases "map_of (children node) t")
    case None
    with Cons.prems have "phraseWalk node stop k ts (i + 1) (skips + 1) = Some en"
      by (auto split: if_splits)
    from Cons.IH[OF this] show ?thesis by simp
  next
    case (Some nx)
    show ?thesis
    proof (cases "isTerminal nx")
      case True
      with Some Cons.prems show ?thesis by simp
    next
      case False
      with Some Cons.prems have "phraseWalk nx stop k ts (i + 1) skips = Some en" by simp
      from Cons.IH[OF this] show ?thesis by simp
    qed
  qed
qed

lemma findAllMatchesForTokens_range:
  assumes "span \<in> set (findAllMatchesForTokens root tokens stop k)"
  shows "startTokenIndex span \<le> endTokenIndex span \<and> endTokenIndex span < length tokens"
proof -
  from assms obtain start en where
    "start < length tokens" "phraseWalk root stop k (drop start tokens) start 0 = Some en"
    "span = \<lparr>startTokenIndex = start, endTokenIndex = en\<rparr>"
    by (auto simp: findAllMatchesForTokens_def in_map_filter)
  with phraseWalk_range[OF this(2)] show ?thesis by auto
qed

lemma phraseStage_boundary:
  assumes "surrogatesNotWord e" and "m \<in> set (phraseStage e st tx)"
  shows "leftOk e tx (index m) \<and> rightOk e tx (index m + length' m)"
proof -
  let ?tokens = "tokenizeWithOffsets e tx"
  let ?spans = "findAllMatchesForTokens (phraseTrie st) (map t_value ?tokens)
                   (newSet (case phraseStopwords (detection (config st)) of
                              None \<Rightarrow> [] | Some s \<Rightarrow> s))
                   (case phraseMaxSkips (detection (config st)) of None \<Rightarrow> 0 | Some k \<Rightarrow> k)"
  from assms(2) obtain span rest where sp: "?spans = span # rest"
    by (cases ?spans) (auto simp: phraseStage_def Let_def)
  then have "span \<in> set ?spans" by simp
  from findAllMatchesForTokens_range[OF this]
  have ab: "startTokenIndex span \<le> endTokenIndex span" and b: "endTokenIndex span < length ?tokens"
    by auto
  let ?a = "?tokens ! startTokenIndex span" and ?b = "?tokens ! endTokenIndex span"
  from ab b have a: "startTokenIndex span < length ?tokens" by simp
  from assms(2) sp a b have m: "index m = t_start ?a" "length' m = t_endExclusive ?b - t_start ?a"
    by (auto simp: phraseStage_def Let_def)
  from tokenizeWithOffsets_tokens[OF assms(1), of tx]
  have ok: "\<forall>t \<in> set ?tokens. tokenOk e tx 0 t"
    and srt: "sorted_wrt (\<lambda>t u. t_endExclusive t \<le> t_start u) ?tokens" by auto
  from ok a b have oa: "tokenOk e tx 0 ?a" and ob: "tokenOk e tx 0 ?b" by auto
  have "t_start ?a \<le> t_endExclusive ?b"
  proof (cases "startTokenIndex span = endTokenIndex span")
    case True
    with oa show ?thesis by (simp add: tokenOk_def)
  next
    case False
    with ab have "startTokenIndex span < endTokenIndex span" by simp
    from sorted_wrt_nth_less[OF srt this b] oa ob show ?thesis
      by (simp add: tokenOk_def)
  qed
  with m oa ob show ?thesis by (simp add: tokenOk_def)
qed

lemma fuzzyWords_boundary:
  assumes "wholeWordsOnly (detection cfg)" and "m \<in> set (fuzzyWords e cfg tx code ws)"
  shows "leftOk e tx (index m) \<and> rightOk e tx (index m + length' m)"
  using assms(2)
proof (induction ws)
  case Nil
  then show ?case by simp
next
  case (Cons w ws)
  show ?case
  proof (cases "findApproximateOccurrence e cfg tx w (scaledMaxDistance cfg w)
                  (wholeWordsOnly (detection cfg))")
    case None
    with Cons show ?thesis by simp
  next
    case (Some i)
    with assms(1) have "leftOk e tx i \<and> rightOk e tx (i + length w)"
      by (auto simp: findApproximateOccurrence_def dest: approximateLoop_boundary)
    with Some Cons.prems show ?thesis by simp
  qed
qed

lemma fuzzyStage_boundary:
  assumes "wholeWordsOnly (detection cfg)" and "m \<in> set (fuzzyStage e cfg tx wordlists)"
  shows "leftOk e tx (index m) \<and> rightOk e tx (index m + length' m)"
  using assms(2)
proof (induction wordlists)
  case Nil
  then show ?case by simp
next
  case (Cons cw wordlists)
  obtain code ws where cw: "cw = (code, ws)" by (cases cw)
  show ?case
  proof (cases "length (fuzzyWords e cfg tx code ws) > 0")
    case True
    with Cons.prems cw have "m \<in> set (fuzzyWords e cfg tx code ws)" by (simp add: Let_def)
    from fuzzyWords_boundary[OF assms(1) this] show ?thesis .
  next
    case False
    with Cons cw show ?thesis by (simp add: Let_def)
  qed
qed

lemma positiveOutputs_update:
  assumes "positiveOutputs ns" and "i < length ns \<Longrightarrow> 0 \<notin> set (terminalLengths x)"
  shows "positiveOutputs (ns[i := x])"
proof (cases "i < length ns")
  case True
  have "set (ns[i := x]) \<subseteq> insert x (set ns)" by (rule set_update_subset_insert)
  with assms True show ?thesis by (auto simp: positiveOutputs_def)
next
  case False
  with assms(1) show ?thesis by (simp add: list_update_beyond)
qed

lemma positiveOutputs_nth:
  "positiveOutputs ns \<Longrightarrow> i < length ns \<Longrightarrow> 0 \<notin> set (terminalLengths (ns ! i))"
  by (auto simp: positiveOutputs_def)

lemma positiveOutputs_snoc:
  "positiveOutputs ns \<Longrightarrow> positiveOutputs (ns @ [newAhoNode])"
  by (auto simp: positiveOutputs_def newAhoNode_def)

lemma ahoInsertFrom_positive:
  assumes "wl > 0" and "positiveOutputs ns"
  shows "positiveOutputs (ahoInsertFrom ks wl i ns)"
  using assms(2)
proof (induction ks arbitrary: i ns)
  case Nil
  show ?case
    using assms(1) Nil by (auto intro!: positiveOutputs_update dest: positiveOutputs_nth)
next
  case (Cons k ks)
  show ?case
  proof (cases "map_of (achildren (ns ! i)) k")
    case None
    have "positiveOutputs (ns[i := (ns ! i)\<lparr>achildren := achildren (ns ! i) @ [(k, length ns)]\<rparr>]
            @ [newAhoNode])"
      using Cons.prems
      by (auto intro!: positiveOutputs_snoc positiveOutputs_update dest: positiveOutputs_nth)
    from Cons.IH[OF this] None show ?thesis by (simp add: Let_def)
  next
    case (Some nx)
    with Cons.IH[OF Cons.prems] show ?thesis by simp
  qed
qed

lemma Aho_insertAll_positive:
  "positiveOutputs ns \<Longrightarrow> positiveOutputs (Aho_insertAll ws ns)"
  unfolding Aho_insertAll_def
proof (induction ws arbitrary: ns)
  case Nil
  then show ?case by simp
next
  case (Cons w ws)
  have "positiveOutputs (Aho_insert w ns)"
    using Cons.prems by (auto simp: Aho_insert_def intro: ahoInsertFrom_positive)
  from Cons.IH[OF this] show ?case by simp
qed

lemma insert_words_positive:
  "positiveOutputs ns \<Longrightarrow>
   positiveOutputs (fold (\<lambda>w ac. Aho_insertAll (f w) ac) ws ns)"
  by (induction ws arbitrary: ns) (auto intro: Aho_insertAll_positive)

lemma buildInit_positive:
  "buildInit q ns = Some ns' \<Longrightarrow> positiveOutputs ns \<Longrightarrow> positiveOutputs ns'"
proof (induction q arbitrary: ns)
  case Nil
  then show ?case by simp
next
  case (Cons c q)
  from Cons.prems(1) have c: "c < length ns"
    and r: "buildInit q (ns[c := (ns ! c)\<lparr>fail := 0\<rparr>]) = Some ns'"
    by (auto split: if_splits)
  have "positiveOutputs (ns[c := (ns ! c)\<lparr>fail := 0\<rparr>])"
    using Cons.prems(2) by (auto intro!: positiveOutputs_update dest: positiveOutputs_nth)
  from Cons.IH[OF r this] show ?case .
qed

lemma setFail_positive:
  assumes "positiveOutputs ns" and "f < length ns"
  shows "positiveOutputs (setFail ns nextIndex f)"
proof -
  define n1 where "n1 = ns[nextIndex := (ns ! nextIndex)\<lparr>fail := f\<rparr>]"
  have p1: "positiveOutputs n1"
    unfolding n1_def
    using assms(1) by (auto intro!: positiveOutputs_update dest: positiveOutputs_nth)
  have len: "length n1 = length ns" by (simp add: n1_def)
  have a: "0 \<notin> set (terminalLengths (n1 ! f))"
    using positiveOutputs_nth[OF p1, of f] assms(2) len by simp
  have b: "nextIndex < length n1 \<Longrightarrow> 0 \<notin> set (terminalLengths (n1 ! nextIndex))"
    using positiveOutputs_nth[OF p1, of nextIndex] by simp
  have "positiveOutputs (n1[nextIndex := (n1 ! nextIndex)
          \<lparr>terminalLengths := terminalLengths (n1 ! nextIndex) @ terminalLengths (n1 ! f)\<rparr>])"
    by (rule positiveOutputs_update[OF p1]) (use a b in simp)
  with p1 show ?thesis by (simp add: setFail_def Let_def n1_def[symmetric])
qed

lemma buildChild_positive:
  assumes "buildChild current edge ns = Some ns'" and "positiveOutputs ns"
  shows "positiveOutputs ns'"
proof -
  obtain ch nextIndex where edge: "edge = (ch, nextIndex)" by (cases edge)
  define f where
    "f = failTarget ns ch nextIndex (the (followFail ns ch (fail (ns ! current))))"
  from assms(1) edge have "f < length ns" "ns' = setFail ns nextIndex f"
    by (auto simp: buildChild_def Let_def f_def split: if_splits option.splits)
  with setFail_positive[OF assms(2) this(1)] show ?thesis by simp
qed

lemma buildChildren_positive:
  "buildChildren current edges ns = Some ns' \<Longrightarrow> positiveOutputs ns \<Longrightarrow> positiveOutputs ns'"
proof (induction edges arbitrary: ns)
  case Nil
  then show ?case by simp
next
  case (Cons edge edges)
  from Cons.prems(1) obtain ns1 where a: "buildChild current edge ns = Some ns1"
    and b: "buildChildren current edges ns1 = Some ns'"
    by (auto split: option.splits)
  from Cons.IH[OF b buildChild_positive[OF a Cons.prems(2)]] show ?case .
qed

lemma buildLoop_positive:
  assumes "buildLoop ns queue = Some ns'" and "positiveOutputs ns"
  shows "positiveOutputs ns'"
proof -
  have "positiveOutputs ns \<longrightarrow> positiveOutputs ns'"
  proof (rule buildLoop.raw_induct
      [where P = "\<lambda>ns queue ns'. positiveOutputs ns \<longrightarrow> positiveOutputs ns'", OF _ assms(1)])
    fix loop ns queue out
    assume IH: "\<And>ns queue y. loop ns queue = Some y \<Longrightarrow>
                  positiveOutputs ns \<longrightarrow> positiveOutputs y"
      and step: "(case queue of
                    [] \<Rightarrow> Some ns
                  | current # rest \<Rightarrow>
                      if current \<ge> length ns then None
                      else
                        (case buildChildren current (achildren (ns ! current)) ns of
                           None \<Rightarrow> None
                         | Some nodes' \<Rightarrow>
                             loop nodes' (rest @ map snd (achildren (ns ! current)))))
                 = Some out"
    show "positiveOutputs ns \<longrightarrow> positiveOutputs out"
    proof (cases queue)
      case Nil
      with step show ?thesis by simp
    next
      case (Cons current rest)
      with step obtain ns1 where
        a: "buildChildren current (achildren (ns ! current)) ns = Some ns1"
        and b: "loop ns1 (rest @ map snd (achildren (ns ! current))) = Some out"
        by (auto split: if_splits option.splits)
      from IH[OF b] buildChildren_positive[OF a] show ?thesis by auto
    qed
  qed
  with assms(2) show ?thesis by simp
qed

lemma Aho_build_positive:
  assumes "Aho_build ns = Some ns'" and "positiveOutputs ns"
  shows "positiveOutputs ns'"
proof -
  from assms(1) obtain ns1 where a: "buildInit (map snd (achildren (ns ! 0))) ns = Some ns1"
    and b: "buildLoop ns1 (map snd (achildren (ns ! 0))) = Some ns'"
    by (auto simp: Aho_build_def Let_def split: if_splits option.splits)
  from buildLoop_positive[OF b buildInit_positive[OF a assms(2)]] show ?thesis .
qed

lemma set_alist_update: "set (AList.update k v al) \<subseteq> insert (k, v) (set al)"
  by (induction al) auto

lemma set_alist_delete: "set (AList.delete k al) \<subseteq> set al"
  by (induction al) auto

lemma rebuildMatcher_config:
  "rebuildMatcherForLanguage e code st = Some st' \<Longrightarrow> config st' = config st"
  by (auto simp: rebuildMatcherForLanguage_def Let_def split: if_splits option.splits)

lemma rebuildMatcher_positive:
  assumes "rebuildMatcherForLanguage e code st = Some st'" and "automataPositive st"
  shows "automataPositive st'"
proof (cases "(case algorithm (detection (config st)) of None \<Rightarrow> AlgTrie | Some a \<Rightarrow> a) = AlgAho")
  case True
  let ?words = "(case map_of (languageWordlists st) code of None \<Rightarrow> [] | Some ws \<Rightarrow> ws)"
  from True assms(1) obtain ac where
    b: "Aho_build (fold (\<lambda>w ac. Aho_insertAll (expandWordVariants e (config st) w) ac)
                          ?words AhoCorasick_new) = Some ac"
    and st': "languageAutomata st' = AList.update code ac (languageAutomata st)"
    by (auto simp: rebuildMatcherForLanguage_def Let_def split: option.splits)
  have "positiveOutputs AhoCorasick_new"
    by (simp add: positiveOutputs_def AhoCorasick_new_def newAhoNode_def)
  from Aho_build_positive[OF b insert_words_positive[OF this]] have "positiveOutputs ac" .
  with assms(2) st' set_alist_update[of code ac "languageAutomata st"] show ?thesis
    by (auto simp: automataPositive_def)
next
  case False
  with assms(1) have "languageAutomata st' = AList.delete code (languageAutomata st)"
    by (auto simp: rebuildMatcherForLanguage_def Let_def)
  with assms(2) set_alist_delete[of code "languageAutomata st"] show ?thesis
    by (auto simp: automataPositive_def)
qed

lemma ensureLoadedForCodes_invariant:
  assumes "ensureLoadedForCodes e codes st = Some st'" and "automataPositive st"
  shows "automataPositive st' \<and> config st' = config st"
proof -
  let ?P = "\<lambda>s. automataPositive s \<and> config s = config st"
  show ?thesis
  proof (rule foldOpt_preserves[OF assms(1)[unfolded ensureLoadedForCodes_def], where P = ?P])
    show "?P st" using assms(2) by simp
  next
    fix code and s s' :: ProfanityBuster
    assume s: "?P s"
      and step: "(if (case map_of (languageWordlists s) code of
                None \<Rightarrow> False
              | Some existingSet \<Rightarrow>
                  length existingSet > 0
                  \<and> (map_of (languageTries s) code \<noteq> None
                     \<or> map_of (languageAutomata s) code \<noteq> None))
          then Some s
          else
            (case (if code = U ''en'' then Some (EN_WORDS e)
                   else map_of (languageWordMap e) code) of
               None \<Rightarrow> Some s
             | Some words \<Rightarrow>
                 if length words = 0 then Some s
                 else rebuildMatcherForLanguage e code
                        (s\<lparr>languageWordlists :=
                             AList.update code (newSet (map (normalizeWord e (config s)) words))
                               (languageWordlists s)\<rparr>))) = Some s'"
    show "?P s'"
    proof (cases "s' = s")
      case True
      with s show ?thesis by simp
    next
      case False
      with step obtain ws where
        r: "rebuildMatcherForLanguage e code
              (s\<lparr>languageWordlists := AList.update code ws (languageWordlists s)\<rparr>) = Some s'"
        by (auto split: if_splits option.splits)
      have "automataPositive (s\<lparr>languageWordlists := AList.update code ws (languageWordlists s)\<rparr>)"
        using s by (simp add: automataPositive_def)
      from rebuildMatcher_positive[OF r this] rebuildMatcher_config[OF r] s
      show ?thesis by simp
    qed
  qed
qed

lemma selectAutoDetectLanguages_invariant:
  assumes "selectAutoDetectLanguages e tx st = Some (codes, st')" and "automataPositive st"
  shows "automataPositive st' \<and> config st' = config st"
proof (cases "st' = st")
  case True
  with assms(2) show ?thesis by simp
next
  case False
  with assms(1) have "ensureLoadedForCodes e (allLanguageCodes e) st = Some st'"
    by (auto simp: selectAutoDetectLanguages_def Let_def split: if_splits option.splits)
  from ensureLoadedForCodes_invariant[OF this assms(2)] show ?thesis .
qed

lemma exactStage_boundary:
  assumes "wholeWordsOnly (detection (config st))" and "automataPositive st"
    and "exactStage e st tx wordlists = Some ms" and "m \<in> set ms"
  shows "leftOk e tx (index m) \<and> rightOk e tx (index m + length' m)"
  using assms(3,4)
proof (induction wordlists)
  case Nil
  then show ?case by simp
next
  case (Cons cw wordlists)
  obtain code ws where cw: "cw = (code, ws)" by (cases cw)
  let ?seps = "newSet (case ignoreSeparators (detection (config st)) of None \<Rightarrow> [] | Some s \<Rightarrow> s)"
  show ?case
  proof (cases "exactStage e st tx wordlists = Some ms")
    case True
    from Cons.IH[OF True Cons.prems(2)] show ?thesis .
  next
    case False
    note nrec = False
    show ?thesis
    proof (cases "(case algorithm (detection (config st)) of None \<Rightarrow> AlgTrie | Some a \<Rightarrow> a) = AlgAho")
      case True
      with Cons.prems(1) cw nrec obtain ac acMatches where
        ac: "map_of (languageAutomata st) code = Some ac"
        and f: "Aho_findAllMatches e ac tx (wholeWordsOnly (detection (config st))) ?seps
                = Some acMatches"
        and ms: "ms = map (toDetectionMatch tx code) acMatches"
        by (auto simp: Let_def split: option.splits if_splits)
      from ac have "(code, ac) \<in> set (languageAutomata st)" by (rule map_of_SomeD)
      with assms(2) have pos: "positiveOutputs ac" by (force simp: automataPositive_def)
      from Cons.prems(2) ms obtain tm where tm: "tm \<in> set acMatches"
        and m: "m = toDetectionMatch tx code tm" by auto
      from Aho_findAllMatches_boundary[OF pos f[unfolded eqTrueI[OF assms(1)]] tm] m
      show ?thesis by (simp add: toDetectionMatch_def)
    next
      case False
      with Cons.prems(1) cw nrec obtain trie where
        ms: "ms = map (toDetectionMatch tx code)
                    (Trie_findAllMatches e trie tx (wholeWordsOnly (detection (config st))) ?seps)"
        by (auto simp: Let_def split: option.splits if_splits)
      from Cons.prems(2) ms obtain tm where
        tm: "tm \<in> set (Trie_findAllMatches e trie tx (wholeWordsOnly (detection (config st))) ?seps)"
        and m: "m = toDetectionMatch tx code tm" by auto
      from Trie_findAllMatches_boundary[OF assms(1) tm] m
      show ?thesis by (simp add: toDetectionMatch_def)
    qed
  qed
qed

text \<open>
  With \<^verbatim>\<open>wholeWordsOnly\<close>, the exact stage, the phrase stage and the fuzzy stage test the
  two ends of the span that they report. So when the inflection scan is off, every match
  of \<^verbatim>\<open>detect\<close> has no word character right before its start and none right after its
  end, in the normalized text. The tests read one code unit, \<^verbatim>\<open>text[start - 1]\<close> and
  \<^verbatim>\<open>text[end]\<close>. (The units of surrogate pairs are not word characters, and the output
  lengths of the automata are positive, as they are for every automaton that \<^verbatim>\<open>build\<close>
  returns.)
\<close>

theorem detect_whole_word_without_inflections:
  assumes "wholeWordsOnly (detection (config st))"
    and "enableInflections (detection (config st)) = Some False"
    and "surrogatesNotWord e" and "automataPositive st"
    and "detect e tx st = Some (r, st')" and "m \<in> set (matches r)"
  shows "leftOk e (normalizeForDetection e tx (detectionOptions (config st))) (index m)
         \<and> rightOk e (normalizeForDetection e tx (detectionOptions (config st)))
             (index m + length' m)"
proof -
  let ?tn = "normalizeForDetection e tx (detectionOptions (config st))"
  from assms(5) obtain codes st1 where
    sel: "(if autoDetect (languages (config st))
           then selectAutoDetectLanguages e ?tn st
           else Some (enabled (languages (config st)), st)) = Some (codes, st1)"
    by (auto simp: detect_def Let_def split: option.splits prod.splits)
  have inv: "automataPositive st1 \<and> config st1 = config st"
  proof (cases "autoDetect (languages (config st))")
    case True
    with sel have "selectAutoDetectLanguages e ?tn st = Some (codes, st1)" by simp
    from selectAutoDetectLanguages_invariant[OF this assms(4)] show ?thesis .
  next
    case False
    with sel assms(4) show ?thesis by simp
  qed
  then have cfg: "config st1 = config st" and pos: "automataPositive st1" by auto
  have whole: "wholeWordsOnly (detection (config st1))" using assms(1) cfg by simp
  let ?wl = "collectWordlistsForCodes st1 codes"
  from assms(5) sel obtain ms0 ms1 where
    ex: "exactStage e st1 ?tn ?wl = Some ms0"
    and inf: "inflectionStage e st1 ?tn ?wl ms0 = Some ms1"
    and r: "matches r =
              (let ms2 = (if length ms1 = 0 \<and> length (phraseList st1) > 0
                               then ms1 @ phraseStage e st1 ?tn else ms1);
                   ms3 = (if length ms2 = 0 \<and> levenshteinDistance (detection (config st1)) > 0
                               then ms2 @ fuzzyStage e (config st1) ?tn ?wl
                               else ms2)
               in ms3)"
    by (auto simp: detect_def Let_def split: option.splits prod.splits)
  from inf assms(2) cfg have same: "ms1 = ms0" by (simp add: inflectionStage_def)
  have s1: "\<forall>m \<in> set ms1. leftOk e ?tn (index m) \<and> rightOk e ?tn (index m + length' m)"
    unfolding same using exactStage_boundary[OF whole pos ex] by blast
  have s2: "\<forall>m \<in> set (phraseStage e st1 ?tn).
              leftOk e ?tn (index m) \<and> rightOk e ?tn (index m + length' m)"
    using phraseStage_boundary[OF assms(3)] by blast
  have s3: "\<forall>m \<in> set (fuzzyStage e (config st1) ?tn ?wl).
              leftOk e ?tn (index m) \<and> rightOk e ?tn (index m + length' m)"
    using fuzzyStage_boundary[OF whole] by blast
  from assms(6) r s1 s2 s3 show ?thesis
    by (auto simp: Let_def split: if_splits)
qed

text \<open>
  With the inflection scan on, the end of a match is weaker: right after it there is no
  word character, or one of the inflection suffixes stands there and no word character
  follows that suffix.
\<close>

theorem detect_whole_word_boundaries:
  assumes "wholeWordsOnly (detection (config st))"
    and "surrogatesNotWord e" and "automataPositive st"
    and "detect e tx st = Some (r, st')" and "m \<in> set (matches r)"
  shows "leftOk e (normalizeForDetection e tx (detectionOptions (config st))) (index m)
         \<and> inflectedRightOk e (normalizeForDetection e tx (detectionOptions (config st)))
             (case inflectionSuffixes (detection (config st)) of None \<Rightarrow> [] | Some s \<Rightarrow> s)
             (index m + length' m)"
proof -
  let ?tn = "normalizeForDetection e tx (detectionOptions (config st))"
  let ?suf = "(case inflectionSuffixes (detection (config st)) of None \<Rightarrow> [] | Some s \<Rightarrow> s)"
  from assms(4) obtain codes st1 where
    sel: "(if autoDetect (languages (config st))
           then selectAutoDetectLanguages e ?tn st
           else Some (enabled (languages (config st)), st)) = Some (codes, st1)"
    by (auto simp: detect_def Let_def split: option.splits prod.splits)
  have inv: "automataPositive st1 \<and> config st1 = config st"
  proof (cases "autoDetect (languages (config st))")
    case True
    with sel have "selectAutoDetectLanguages e ?tn st = Some (codes, st1)" by simp
    from selectAutoDetectLanguages_invariant[OF this assms(3)] show ?thesis .
  next
    case False
    with sel assms(3) show ?thesis by simp
  qed
  then have cfg: "config st1 = config st" and pos: "automataPositive st1" by auto
  have whole: "wholeWordsOnly (detection (config st1))" using assms(1) cfg by simp
  let ?wl = "collectWordlistsForCodes st1 codes"
  from assms(4) sel obtain ms0 ms1 where
    ex: "exactStage e st1 ?tn ?wl = Some ms0"
    and inf: "inflectionStage e st1 ?tn ?wl ms0 = Some ms1"
    and r: "matches r =
              (let ms2 = (if length ms1 = 0 \<and> length (phraseList st1) > 0
                               then ms1 @ phraseStage e st1 ?tn else ms1);
                   ms3 = (if length ms2 = 0 \<and> levenshteinDistance (detection (config st1)) > 0
                               then ms2 @ fuzzyStage e (config st1) ?tn ?wl
                               else ms2)
               in ms3)"
    by (auto simp: detect_def Let_def split: option.splits prod.splits)
  have s0: "\<forall>m \<in> set ms0. boundarySound e ?tn ?suf m"
    using exactStage_boundary[OF whole pos ex] by (auto intro: boundarySoundI)
  from inflectionStage_sound[OF whole inf] s0 cfg
  have s1: "\<forall>m \<in> set ms1. boundarySound e ?tn ?suf m" by simp
  have s2: "\<forall>m \<in> set (phraseStage e st1 ?tn). boundarySound e ?tn ?suf m"
    using phraseStage_boundary[OF assms(2)] by (auto intro: boundarySoundI)
  have s3: "\<forall>m \<in> set (fuzzyStage e (config st1) ?tn ?wl). boundarySound e ?tn ?suf m"
    using fuzzyStage_boundary[OF whole] by (auto intro: boundarySoundI)
  from assms(5) r s1 s2 s3 have "boundarySound e ?tn ?suf m"
    by (auto simp: Let_def split: if_splits)
  then show ?thesis by (simp add: boundarySound_def)
qed

theorem detect_whole_word_boundaries_witness:
  "wholeWordsOnly (detection (config wholeWordDetector))
   \<and> surrogatesNotWord sampleEnv
   \<and> automataPositive wholeWordDetector
   \<and> detect sampleEnv (U ''shits'') wholeWordDetector
     = Some (\<lparr>hasProfanity = True,
              matches = [\<lparr>index = 0, length' = 5, word = U ''shits'', language = U ''en''\<rparr>,
                         \<lparr>index = 0, length' = 4, word = U ''shit'', language = U ''en''\<rparr>]\<rparr>,
             wholeWordDetector)
   \<and> leftOk sampleEnv
       (normalizeForDetection sampleEnv (U ''shits'') (detectionOptions (config wholeWordDetector)))
       0
   \<and> inflectedRightOk sampleEnv
       (normalizeForDetection sampleEnv (U ''shits'') (detectionOptions (config wholeWordDetector)))
       (case inflectionSuffixes (detection (config wholeWordDetector)) of
          None \<Rightarrow> [] | Some s \<Rightarrow> s)
       4"
proof -
  let ?m = "\<lparr>index = 0, length' = 4, word = U ''shit'', language = U ''en''\<rparr>"
  let ?r = "\<lparr>hasProfanity = True,
            matches = [\<lparr>index = 0, length' = 5, word = U ''shits'', language = U ''en''\<rparr>, ?m]\<rparr>"
  have h1: "wholeWordsOnly (detection (config wholeWordDetector))"
    by code_simp
  have h2: "surrogatesNotWord sampleEnv"
    by (auto simp: surrogatesNotWord_def sampleEnv_def sampleWordCodePoint_def
          isHighSurrogate_def isLowSurrogate_def)
  have "languageAutomata wholeWordDetector = []"
    by code_simp
  then have h3: "automataPositive wholeWordDetector"
    by (simp add: automataPositive_def)
  have h4: "detect sampleEnv (U ''shits'') wholeWordDetector = Some (?r, wholeWordDetector)"
    by code_simp
  have h5: "?m \<in> set (matches ?r)"
    by simp
  from detect_whole_word_boundaries[OF h1 h2 h3 h4 h5] h1 h2 h3 h4
  show ?thesis by simp
qed

text \<open>
  C3: with \<^verbatim>\<open>wholeWordsOnly\<close>, no match of \<^verbatim>\<open>detect\<close> has a letter, a digit or an
  underscore right before its start or right after its end, in the normalized text. The
  inflection scan returns such a match: it tests the boundary after the suffix,
  \<^verbatim>\<open>end = start + m[0].length\<close>, and \<^verbatim>\<open>detect\<close> pushes the span of the base,
  \<^verbatim>\<open>length: word.length\<close>. On \<^verbatim>\<open>shits\<close> the detector with \<^verbatim>\<open>wholeWordsOnly\<close> reports
  \<^verbatim>\<open>shit\<close> at offset 0 with length 4, and the unit at offset 4 is the letter \<^verbatim>\<open>s\<close>.
\<close>

theorem detect_whole_word_inflected_span:
  "wholeWordsOnly (detection (config wholeWordDetector))
   \<and> map_option (matches \<circ> fst) (detect sampleEnv (U ''shits'') wholeWordDetector)
     = Some [\<lparr>index = 0, length' = 5, word = U ''shits'', language = U ''en''\<rparr>,
             \<lparr>index = 0, length' = 4, word = U ''shit'', language = U ''en''\<rparr>]
   \<and> WORD_CHAR sampleEnv
       (normalizeForDetection sampleEnv (U ''shits'')
          (detectionOptions (config wholeWordDetector)) ! 4)"
  by code_simp

text \<open>
  The boundary tests of all stages read one code unit. A letter outside the Basic
  Multilingual Plane is a surrogate pair, whose units are no word characters, so a match
  can stand right after such a letter: \<^verbatim>\<open>shit\<close> is reported at offset 2 of the text made
  of the letter U+1D49C and \<^verbatim>\<open>shit\<close>.
\<close>

lemma detect_whole_word_supplementary_letter:
  "isWordCodePoint sampleEnv (codePointValue [0xD835, 0xDC9C])
   \<and> map_option (matches \<circ> fst)
       (detect sampleEnv ([0xD835, 0xDC9C] @ U ''shit'') wholeWordDetector)
     = Some [\<lparr>index = 2, length' = 4, word = U ''shit'', language = U ''en''\<rparr>]"
  by code_simp


subsection \<open>Detection after \<^verbatim>\<open>addWord\<close>\<close>















lemma foldOpt_returns:
  assumes "\<And>x s. x \<in> set xs \<Longrightarrow> f x s \<noteq> None"
  shows "foldOpt f xs s \<noteq> None"
  using assms
proof (induction xs arbitrary: s)
  case Nil
  then show ?case by simp
next
  case (Cons x xs)
  from Cons.prems[of x s] obtain s1 where "f x s = Some s1" by auto
  with Cons.IH[of s1] Cons.prems show ?case by simp
qed











lemma regexExecFrom_bounds:
  assumes "regexExecFrom tx base suffixes ps = Some (start, n)"
  shows "start \<in> set ps \<and> inflMatchAt tx base suffixes start = Some n"
  using assms by (induction ps) (auto split: option.splits)

lemma inflMatchAt_length:
  assumes "inflMatchAt tx base suffixes p = Some n"
  shows "length base \<le> n"
  using assms by (auto simp: inflMatchAt_def split: if_splits)

lemma inflLoop_returns:
  assumes "base \<noteq> []"
  shows "\<exists>out. inflLoop e tx base suffixes whole p indices = Some out"
proof (induction "length tx + 1 - p" arbitrary: p indices whole rule: less_induct)
  case less
  show ?case
  proof (cases "regexExec tx base suffixes p")
    case None
    then show ?thesis by (subst inflLoop.simps) simp
  next
    case (Some sn)
    obtain start n where sn: "sn = (start, n)" by (cases sn)
    from Some sn regexExecFrom_bounds[of tx base suffixes "[p..<length tx + 1]" start n]
    have b: "p \<le> start" "start < length tx + 1" and m: "inflMatchAt tx base suffixes start = Some n"
      by (auto simp: regexExec_def)
    from inflMatchAt_length[OF m] assms have "0 < n" by (cases base) auto
    with b have "length tx + 1 - (start + n) < length tx + 1 - p" by simp
    from less[OF this] Some sn show ?thesis
      by (subst inflLoop.simps) simp
  qed
qed

lemma inflectionReturns_nonempty: "w \<noteq> [] \<Longrightarrow> inflectionReturns e st tx w"
  using inflLoop_returns[of w e tx]
  by (auto simp: inflectionReturns_def findWordOccurrencesWithInflections_def)

lemma inflectionWord_returnsI:
  "inflectionReturns e st tx w \<Longrightarrow> inflectionWord e st tx code w acc \<noteq> None"
  by (auto simp: inflectionWord_def inflectionReturns_def split: option.splits)


lemma inflectionStage_returns:
  assumes "\<forall>w \<in> wordsOf wordlists. inflectionReturns e st tx w"
  shows "inflectionStage e st tx wordlists ms \<noteq> None"
proof -
  have "foldOpt (\<lambda>(languageCode, ws) acc.
                   foldOpt (inflectionWord e st tx languageCode) ws acc) wordlists acc \<noteq> None"
    for acc
  proof (rule foldOpt_returns)
    fix x s
    assume x: "x \<in> set wordlists"
    obtain code ws where xx: "x = (code, ws)" by (cases x)
    have "foldOpt (inflectionWord e st tx code) ws s \<noteq> None"
    proof (rule foldOpt_returns)
      fix w a
      assume "w \<in> set ws"
      with x xx assms have "inflectionReturns e st tx w" by (force simp: wordsOf_def)
      then show "inflectionWord e st tx code w a \<noteq> None"
        by (rule inflectionWord_returnsI)
    qed
    with xx show "(case x of (languageCode, ws) \<Rightarrow>
                     foldOpt (inflectionWord e st tx languageCode) ws) s \<noteq> None" by simp
  qed
  then show ?thesis by (auto simp: inflectionStage_def)
qed














lemma detect_noauto:
  assumes "\<not> autoDetect (languages (config st))"
  shows "detect e tx st =
    (case exactStage e st (normalizeForDetection e tx (detectionOptions (config st)))
            (collectWordlistsForCodes st (enabled (languages (config st)))) of
       None \<Rightarrow> None
     | Some ms0 \<Rightarrow>
         (case inflectionStage e st (normalizeForDetection e tx (detectionOptions (config st)))
                 (collectWordlistsForCodes st (enabled (languages (config st)))) ms0 of
            None \<Rightarrow> None
          | Some ms1 \<Rightarrow>
              Some (\<lparr>hasProfanity =
                       length (laterStages e st
                                 (normalizeForDetection e tx (detectionOptions (config st)))
                                 (collectWordlistsForCodes st (enabled (languages (config st))))
                                 ms1) > 0,
                     matches =
                       laterStages e st
                         (normalizeForDetection e tx (detectionOptions (config st)))
                         (collectWordlistsForCodes st (enabled (languages (config st))))
                         ms1\<rparr>,
                    st)))"
  using assms by (simp add: detect_def Let_def laterStages_def split: option.splits)










subsection \<open>The matches of the trie\<close>

text \<open>
  The trie of a word list has a terminal node at the end of the code points of each word
  that is not empty, and nowhere else. From a start offset, \<^verbatim>\<open>Trie.findAllMatches\<close>
  walks the text without its separators and reports the longest occurrence of a word that
  starts there.
\<close>

lemma trieAccepts_Nil [simp]: "trieAccepts t [] = isTerminal t"
  by (simp add: trieAccepts_def)

lemma trieAccepts_Cons:
  "trieAccepts t (k # ks) =
     (case map_of (children t) k of None \<Rightarrow> False | Some next \<Rightarrow> trieAccepts next ks)"
  by (simp add: trieAccepts_def split: option.splits)

lemma trieAccepts_empty [simp]: "trieAccepts emptyTrie p = False"
  by (cases p) (simp_all add: trieAccepts_Cons emptyTrie_def)

lemma trieAccepts_insertKeys:
  "trieAccepts (insertKeys ks t) p \<longleftrightarrow> p = ks \<or> trieAccepts t p"
proof (induction ks t arbitrary: p rule: insertKeys.induct)
  case (1 cs t)
  show ?case by (cases p) (auto simp: trieAccepts_Cons)
next
  case (2 k ks cs t)
  show ?case
  proof (cases p)
    case Nil
    then show ?thesis by (simp split: option.splits)
  next
    case (Cons k' p')
    show ?thesis
    proof (cases "map_of cs k")
      case None
      then show ?thesis
        using Cons 2(1)[OF None, of p']
        by (auto simp: trieAccepts_Cons map_add_def split: option.splits)
    next
      case (Some nxt)
      then show ?thesis
        using Cons 2(2)[OF Some, of p']
        by (auto simp: trieAccepts_Cons update_conv' split: option.splits)
    qed
  qed
qed

lemma codePoints_Nil_iff [simp]: "codePoints w = [] \<longleftrightarrow> w = []"
  by (induction w rule: codePoints.induct) auto

lemma trieAccepts_insertAll:
  "trieAccepts (Trie_insertAll ws t) p \<longleftrightarrow>
     (\<exists>w\<in>set ws. w \<noteq> [] \<and> codePoints w = p) \<or> trieAccepts t p"
proof (induction ws arbitrary: t)
  case Nil
  show ?case by (simp add: Trie_insertAll_def)
next
  case (Cons w ws)
  have "Trie_insertAll (w # ws) t = Trie_insertAll ws (Trie_insert w t)"
    by (simp add: Trie_insertAll_def)
  then show ?case
    using Cons[of "Trie_insert w t"]
    by (auto simp: Trie_insert_def trieAccepts_insertKeys)
qed


lemma compactFrom_ge: "length tx \<le> j \<Longrightarrow> compactFrom tx seps j = []"
  by (simp add: compactFrom_def)

lemma compactFrom_step:
  assumes "j < length tx"
  shows "compactFrom tx seps j =
           (if seps \<noteq> [] \<and> [tx ! j] \<in> set seps then compactFrom tx seps (j + 1)
            else (tx ! j, j) # compactFrom tx seps (j + 1))"
proof -
  have "drop j tx = tx ! j # drop (j + 1) tx"
    using assms by (simp add: Cons_nth_drop_Suc)
  moreover have "[j..<length tx] = j # [j + 1..<length tx]"
    using assms by (simp add: upt_conv_Cons)
  ultimately show ?thesis by (simp add: compactFrom_def)
qed

lemma compactText_compactFrom: "compactText tx seps = compactFrom tx seps 0"
  by (simp add: compactText_def compactFrom_def)

lemma trieWalk_compact:
  "trieWalk e tx whole seps node j lst
     = trieWalkCompact e tx whole node (compactFrom tx seps j) lst"
proof (induction e tx whole seps node j lst rule: trieWalk.induct)
  case (1 e tx whole seps node j lst)
  show ?case
  proof (cases "j < length tx")
    case False
    then show ?thesis by (simp add: trieWalk.simps[of e tx whole seps node j] compactFrom_ge)
  next
    case j: True
    show ?thesis
    proof (cases "seps \<noteq> [] \<and> [tx ! j] \<in> set seps")
      case True
      from j True have "trieWalk e tx whole seps node j lst
          = trieWalk e tx whole seps node (j + 1) lst"
        by (subst trieWalk.simps) (auto simp: Let_def)
      with "1.IH"(1)[OF j refl True] j True show ?thesis
        by (simp add: compactFrom_step)
    next
      case False
      note sep = False
      show ?thesis
      proof (cases "map_of (children node) [tx ! j]")
        case None
        with j sep have "trieWalk e tx whole seps node j lst = lst"
          by (subst trieWalk.simps) (auto simp: Let_def)
        with None j sep show ?thesis
          by (auto simp: compactFrom_step)
      next
        case (Some nx)
        let ?last = "(if isTerminal nx then
                    (if whole then
                       (if j + 1 < length tx \<and> WORD_CHAR e (tx ! (j + 1))
                        then lst else Some j)
                     else Some j)
                  else lst)"
        have l: "?last = (if isTerminal nx \<and> (whole \<longrightarrow> rightOk e tx (j + 1))
                          then Some j else lst)"
          by (auto simp: rightOk_def)
        from j sep Some have "trieWalk e tx whole seps node j lst
            = trieWalk e tx whole seps nx (j + 1) ?last"
          by (subst trieWalk.simps) (auto simp: Let_def)
        also have "\<dots> = trieWalkCompact e tx whole nx (compactFrom tx seps (j + 1)) ?last"
          by (rule "1.IH"(2)[OF j refl sep Some])
        finally show ?thesis
          using j sep Some unfolding l by (auto simp: compactFrom_step)
      qed
    qed
  qed
qed

lemma walkAccepts_Nil [simp]: "\<not> walkAccepts e tx whole node [] k"
  by (simp add: walkAccepts_def)

lemma walkAccepts_Cons:
  "walkAccepts e tx whole node (c # rest) k \<longleftrightarrow>
     (case map_of (children node) [fst c] of
        None \<Rightarrow> False
      | Some nxt \<Rightarrow>
          (k = 1 \<and> isTerminal nxt \<and> (whole \<longrightarrow> rightOk e tx (snd c + 1)))
          \<or> (2 \<le> k \<and> walkAccepts e tx whole nxt rest (k - 1)))"
proof (cases k)
  case 0
  then show ?thesis by (simp add: walkAccepts_def split: option.splits)
next
  case (Suc k')
  show ?thesis
  proof (cases k')
    case 0
    with Suc show ?thesis
      by (auto simp: walkAccepts_def units_def trieAccepts_Cons split: option.splits)
  next
    case (Suc k'')
    with \<open>k = Suc k'\<close> show ?thesis
      by (auto simp: walkAccepts_def units_def trieAccepts_Cons split: option.splits)
  qed
qed

lemma trieWalkCompact_none:
  "(\<And>k. \<not> walkAccepts e tx whole node cs k) \<Longrightarrow> trieWalkCompact e tx whole node cs lst = lst"
proof (induction cs arbitrary: node lst)
  case Nil
  show ?case by simp
next
  case (Cons c rest)
  show ?case
  proof (cases "map_of (children node) [fst c]")
    case None
    then show ?thesis by simp
  next
    case (Some nxt)
    have one: "\<not> (isTerminal nxt \<and> (whole \<longrightarrow> rightOk e tx (snd c + 1)))"
      using Cons.prems[of 1] Some by (simp add: walkAccepts_Cons)
    have rest: "\<not> walkAccepts e tx whole nxt rest k" for k
    proof (cases "1 \<le> k")
      case True
      with Cons.prems[of "k + 1"] Some show ?thesis by (simp add: walkAccepts_Cons)
    next
      case False
      then show ?thesis by (simp add: walkAccepts_def)
    qed
    from Cons.IH[of nxt lst, OF rest] Some one show ?thesis by auto
  qed
qed

lemma trieWalkCompact_max:
  assumes "walkAccepts e tx whole node cs k"
    and "\<And>k'. walkAccepts e tx whole node cs k' \<Longrightarrow> k' \<le> k"
  shows "trieWalkCompact e tx whole node cs lst = Some (snd (cs ! (k - 1)))"
  using assms
proof (induction cs arbitrary: node lst k)
  case Nil
  then show ?case by simp
next
  case (Cons c rest)
  from Cons.prems(1) obtain nxt where nxt: "map_of (children node) [fst c] = Some nxt"
    by (auto simp: walkAccepts_Cons split: option.splits)
  show ?case
  proof (cases "k = 1")
    case True
    have rest: "\<not> walkAccepts e tx whole nxt rest k'" for k'
    proof
      assume a: "walkAccepts e tx whole nxt rest k'"
      then have "1 \<le> k'" by (simp add: walkAccepts_def)
      with a nxt have "walkAccepts e tx whole node (c # rest) (k' + 1)"
        by (simp add: walkAccepts_Cons)
      from Cons.prems(2)[OF this] True \<open>1 \<le> k'\<close> show False by simp
    qed
    from Cons.prems(1) True nxt
    have "isTerminal nxt \<and> (whole \<longrightarrow> rightOk e tx (snd c + 1))"
      by (simp add: walkAccepts_Cons)
    with trieWalkCompact_none[of e tx whole nxt rest "Some (snd c)", OF rest] nxt True
    show ?thesis by simp
  next
    case False
    with Cons.prems(1) nxt have k: "2 \<le> k" and a: "walkAccepts e tx whole nxt rest (k - 1)"
      by (auto simp: walkAccepts_Cons)
    have mx: "k' \<le> k - 1" if "walkAccepts e tx whole nxt rest k'" for k'
    proof -
      from that have "1 \<le> k'" by (simp add: walkAccepts_def)
      with that nxt have "walkAccepts e tx whole node (c # rest) (k' + 1)"
        by (simp add: walkAccepts_Cons)
      from Cons.prems(2)[OF this] show ?thesis by simp
    qed
    from Cons.IH[OF a mx] nxt k show ?thesis
      by (cases k) (auto simp: nth_Cons split: nat.splits)
  qed
qed


lemma compactFrom_sorted: "sorted_wrt (\<lambda>x y. snd x < snd y) (compactFrom tx seps j)"
proof -
  have "sorted_wrt (<) (map snd (zip (drop j tx) [j..<length tx]))" by simp
  then have "sorted_wrt (\<lambda>x y. snd x < snd y) (zip (drop j tx) [j..<length tx])"
    by (simp only: sorted_wrt_map)
  then show ?thesis unfolding compactFrom_def by (rule sorted_wrt_filter)
qed

lemma compactFrom_mem:
  "(c, i) \<in> set (compactFrom tx seps j) \<longleftrightarrow>
     j \<le> i \<and> i < length tx \<and> c = tx ! i \<and> (seps = [] \<or> [c] \<notin> set seps)"
proof -
  have "(c, i) \<in> set (zip (drop j tx) [j..<length tx]) \<longleftrightarrow> j \<le> i \<and> i < length tx \<and> c = tx ! i"
  proof
    assume "(c, i) \<in> set (zip (drop j tx) [j..<length tx])"
    then obtain n where n: "n < length (drop j tx)" "n < length [j..<length tx]"
      "drop j tx ! n = c" "[j..<length tx] ! n = i"
      by (auto simp: in_set_zip)
    then show "j \<le> i \<and> i < length tx \<and> c = tx ! i" by auto
  next
    assume a: "j \<le> i \<and> i < length tx \<and> c = tx ! i"
    then have "i - j < length (drop j tx)" "drop j tx ! (i - j) = c" "[j..<length tx] ! (i - j) = i"
      by auto
    then show "(c, i) \<in> set (zip (drop j tx) [j..<length tx])"
      unfolding in_set_zip using a by (intro exI[of _ "i - j"]) auto
  qed
  then show ?thesis by (auto simp: compactFrom_def)
qed

lemma compactFrom_split:
  "compactFrom tx seps 0 =
     filter (\<lambda>(ch, i). seps = [] \<or> [ch] \<notin> set seps) (zip (take j tx) [0..<min j (length tx)])
     @ compactFrom tx seps j"
proof -
  let ?zs = "zip tx [0..<length tx]"
  have "?zs = take j ?zs @ drop j ?zs" by simp
  moreover have "take j ?zs = zip (take j tx) [0..<min j (length tx)]"
    by (simp add: take_zip take_upt min_def)
  moreover have "drop j ?zs = zip (drop j tx) [j..<length tx]"
    by (simp add: drop_zip drop_upt)
  ultimately have "?zs = zip (take j tx) [0..<min j (length tx)] @ zip (drop j tx) [j..<length tx]"
    by simp
  then have "filter (\<lambda>(ch, i). seps = [] \<or> [ch] \<notin> set seps) ?zs
     = filter (\<lambda>(ch, i). seps = [] \<or> [ch] \<notin> set seps)
         (zip (take j tx) [0..<min j (length tx)] @ zip (drop j tx) [j..<length tx])"
    by simp
  then show ?thesis by (simp add: compactFrom_def)
qed

lemma compactFrom_position:
  assumes a: "a < length (compactFrom tx seps 0)"
  shows "compactFrom tx seps (snd (compactFrom tx seps 0 ! a)) = drop a (compactFrom tx seps 0)"
proof -
  let ?cs = "compactFrom tx seps 0"
  let ?i = "snd (?cs ! a)"
  define F1 where
    "F1 = filter (\<lambda>(ch, i). seps = [] \<or> [ch] \<notin> set seps) (zip (take ?i tx) [0..<min ?i (length tx)])"
  have split: "?cs = F1 @ compactFrom tx seps ?i"
    unfolding F1_def by (rule compactFrom_split)
  have low: "snd x < ?i" if "x \<in> set F1" for x
  proof -
    from that have "x \<in> set (zip (take ?i tx) [0..<min ?i (length tx)])" by (simp add: F1_def)
    then have "snd x \<in> set [0..<min ?i (length tx)]"
      unfolding in_set_zip by (metis nth_mem)
    then show ?thesis by simp
  qed
  have srt: "sorted_wrt (\<lambda>x y. snd x < snd y) ?cs" by (rule compactFrom_sorted)
  have "length F1 = a"
  proof (rule ccontr)
    assume ne: "length F1 \<noteq> a"
    show False
    proof (cases "a < length F1")
      case True
      then have "?cs ! a = F1 ! a" by (subst split) (simp add: nth_append)
      with True low[of "F1 ! a"] show False by simp
    next
      case False
      with ne have lt: "length F1 < a" by simp
      with a have less: "snd (?cs ! length F1) < snd (?cs ! a)"
        using srt by (simp add: sorted_wrt_iff_nth_less)
      have "?cs ! length F1 \<in> set (compactFrom tx seps ?i)"
      proof -
        from lt a split have "length F1 < length (F1 @ compactFrom tx seps ?i)" by simp
        then have "0 < length (compactFrom tx seps ?i)" by simp
        moreover have "?cs ! length F1 = compactFrom tx seps ?i ! 0"
          by (subst split) (simp add: nth_append)
        ultimately show ?thesis by (metis nth_mem)
      qed
      moreover obtain c' i' where ci: "?cs ! length F1 = (c', i')"
        by (cases "?cs ! length F1")
      ultimately have "(c', i') \<in> set (compactFrom tx seps ?i)" by simp
      then have "?i \<le> i'" unfolding compactFrom_mem by simp
      then have "?i \<le> snd (?cs ! length F1)" by (simp add: ci)
      with less show False by simp
    qed
  qed
  then show ?thesis by (subst (2) split) simp
qed

lemma compactFrom_nth:
  assumes "a < length (compactFrom tx seps 0)"
  shows "snd (compactFrom tx seps 0 ! a) < length tx
         \<and> fst (compactFrom tx seps 0 ! a) = tx ! snd (compactFrom tx seps 0 ! a)
         \<and> (seps = [] \<or> [tx ! snd (compactFrom tx seps 0 ! a)] \<notin> set seps)"
proof -
  obtain c i where ci: "compactFrom tx seps 0 ! a = (c, i)"
    by (cases "compactFrom tx seps 0 ! a")
  from assms have "compactFrom tx seps 0 ! a \<in> set (compactFrom tx seps 0)" by simp
  with ci have "(c, i) \<in> set (compactFrom tx seps 0)" by simp
  then show ?thesis
    unfolding ci compactFrom_mem by auto
qed

lemma compactFrom_index:
  assumes "i < length tx" and "seps = [] \<or> [tx ! i] \<notin> set seps"
  shows "\<exists>a<length (compactFrom tx seps 0). compactFrom tx seps 0 ! a = (tx ! i, i)"
proof -
  from assms have "(tx ! i, i) \<in> set (compactFrom tx seps 0)" by (simp add: compactFrom_mem)
  then show ?thesis by (auto simp: in_set_conv_nth)
qed

lemma occurrence_walk:
  assumes "a < length cs"
  shows "occurrence e (set ws) tx whole cs a b \<longleftrightarrow>
           (whole \<longrightarrow> leftOk e tx (snd (cs ! a))) \<and> a \<le> b
           \<and> walkAccepts e tx whole (Trie_insertAll ws emptyTrie) (drop a cs) (b + 1 - a)"
proof (cases "a \<le> b \<and> b < length cs")
  case False
  then show ?thesis by (auto simp: occurrence_def walkAccepts_def)
next
  case True
  then have "drop a cs ! (b + 1 - a - 1) = cs ! b" by simp
  with True show ?thesis
    by (auto simp: occurrence_def walkAccepts_def trieAccepts_insertAll)
qed

lemma spanOf_index [simp]: "index (spanOf cs a b) = snd (cs ! a)"
  by (simp add: spanOf_def)

lemma spanOf_length [simp]: "length' (spanOf cs a b) = snd (cs ! b) - snd (cs ! a) + 1"
  by (simp add: spanOf_def)

lemma Trie_findAllMatches_occurrences:
  "set (Trie_findAllMatches e (Trie_insertAll ws emptyTrie) tx whole seps)
     = {spanOf (compactText tx seps) a b |a b.
          occurrence e (set ws) tx whole (compactText tx seps) a b
          \<and> (\<forall>b'. occurrence e (set ws) tx whole (compactText tx seps) a b' \<longrightarrow> b' \<le> b)}"
  (is "?L = ?R")
proof -
  define cs where "cs = compactFrom tx seps 0"
  define root where "root = Trie_insertAll ws emptyTrie"
  have ct: "compactText tx seps = cs" by (simp add: cs_def compactText_compactFrom)
  have start: "trieStart e tx whole seps root (snd (cs ! a)) =
      (if whole \<and> \<not> leftOk e tx (snd (cs ! a)) then None
       else case trieWalkCompact e tx whole root (drop a cs) None of
              None \<Rightarrow> None
            | Some l \<Rightarrow> Some \<lparr>index = snd (cs ! a), length' = l - snd (cs ! a) + 1\<rparr>)"
    if "a < length cs" for a
    using that compactFrom_nth[of a tx seps] compactFrom_position[of a tx seps]
    unfolding cs_def trieStart_def trieWalk_compact
    by (auto simp: leftOk_def split: option.splits)
  have "?L \<subseteq> ?R"
  proof
    fix m assume "m \<in> ?L"
    then obtain i where i: "i < length tx" and m: "trieStart e tx whole seps root i = Some m"
      by (auto simp: Trie_findAllMatches_def in_map_filter root_def)
    from m have nosep: "seps = [] \<or> [tx ! i] \<notin> set seps"
      by (auto simp: trieStart_def split: if_splits)
    from compactFrom_index[OF i nosep] obtain a where a: "a < length cs" and ca: "cs ! a = (tx ! i, i)"
      by (auto simp: cs_def)
    from ca have ia: "snd (cs ! a) = i" by simp
    from m start[OF a] ia obtain l where left: "whole \<longrightarrow> leftOk e tx i"
      and l: "trieWalkCompact e tx whole root (drop a cs) None = Some l"
      and ml: "m = \<lparr>index = i, length' = l - i + 1\<rparr>"
      by (auto split: if_splits option.splits)
    have "\<exists>k. walkAccepts e tx whole root (drop a cs) k"
    proof (rule ccontr)
      assume "\<not> ?thesis"
      then have "trieWalkCompact e tx whole root (drop a cs) None = None"
        by (intro trieWalkCompact_none) simp
      with l show False by simp
    qed
    then obtain k0 where k0: "walkAccepts e tx whole root (drop a cs) k0" ..
    have bound: "k \<le> length (drop a cs)" if "walkAccepts e tx whole root (drop a cs) k" for k
      using that by (simp add: walkAccepts_def)
    define K where "K = (GREATEST k. walkAccepts e tx whole root (drop a cs) k)"
    have K: "walkAccepts e tx whole root (drop a cs) K"
      unfolding K_def
      by (rule GreatestI_nat[where P = "walkAccepts e tx whole root (drop a cs)", OF k0])
         (rule bound)
    have Kmax: "k \<le> K" if "walkAccepts e tx whole root (drop a cs) k" for k
      unfolding K_def
      by (rule Greatest_le_nat[where P = "walkAccepts e tx whole root (drop a cs)", OF that])
         (rule bound)
    from trieWalkCompact_max[OF K Kmax, of None] l
    have lK: "l = snd (drop a cs ! (K - 1))" by simp
    define b where "b = a + K - 1"
    from K have K1: "1 \<le> K" "K \<le> length cs - a" by (simp_all add: walkAccepts_def)
    with a have b: "a \<le> b" "b < length cs" "b + 1 - a = K" by (simp_all add: b_def)
    have lb: "l = snd (cs ! b)" using lK K1 a by (simp add: b_def)
    have occ: "occurrence e (set ws) tx whole cs a b"
      using occurrence_walk[OF a, of e ws tx whole b] left ia b K by (simp add: root_def)
    have mx: "b' \<le> b" if "occurrence e (set ws) tx whole cs a b'" for b'
    proof -
      from that occurrence_walk[OF a, of e ws tx whole b']
      have "walkAccepts e tx whole root (drop a cs) (b' + 1 - a)" and "a \<le> b'"
        by (simp_all add: root_def)
      from Kmax[OF this(1)] this(2) b show ?thesis by simp
    qed
    have "m = spanOf cs a b" using ml lb ia by (simp add: spanOf_def)
    with occ mx show "m \<in> ?R" unfolding ct by blast
  qed
  moreover have "?R \<subseteq> ?L"
  proof
    fix m assume "m \<in> ?R"
    then obtain a b where m: "m = spanOf cs a b" and occ: "occurrence e (set ws) tx whole cs a b"
      and mx: "\<And>b'. occurrence e (set ws) tx whole cs a b' \<Longrightarrow> b' \<le> b"
      unfolding ct by blast
    from occ have ab: "a \<le> b" "b < length cs" by (simp_all add: occurrence_def)
    then have a: "a < length cs" by simp
    from occ occurrence_walk[OF a, of e ws tx whole b]
    have left: "whole \<longrightarrow> leftOk e tx (snd (cs ! a))"
      and K: "walkAccepts e tx whole root (drop a cs) (b + 1 - a)"
      by (simp_all add: root_def)
    have Kmax: "k \<le> b + 1 - a" if "walkAccepts e tx whole root (drop a cs) k" for k
    proof -
      from that have k1: "1 \<le> k" by (simp add: walkAccepts_def)
      then have "a + k - 1 + 1 - a = k" by simp
      with that left k1 have "occurrence e (set ws) tx whole cs a (a + k - 1)"
        using occurrence_walk[OF a, of e ws tx whole "a + k - 1"] by (simp add: root_def)
      from mx[OF this] k1 show ?thesis by simp
    qed
    from trieWalkCompact_max[OF K Kmax, of None] ab
    have "trieWalkCompact e tx whole root (drop a cs) None = Some (snd (cs ! b))" by simp
    with start[OF a] left have "trieStart e tx whole seps root (snd (cs ! a)) = Some m"
      by (auto simp: m spanOf_def)
    moreover have "snd (cs ! a) < length tx"
      using compactFrom_nth[of a tx seps] a by (simp add: cs_def)
    ultimately show "m \<in> ?L"
      by (auto simp: Trie_findAllMatches_def in_map_filter root_def)
  qed
  ultimately show ?thesis by blast
qed


subsection \<open>The default detector\<close>


lemma fold_Trie_insertAll:
  "fold (\<lambda>w t. Trie_insertAll (f w) t) ws t0 = Trie_insertAll (concat (map f ws)) t0"
  by (induction ws arbitrary: t0) (simp_all add: Trie_insertAll_def)

lemma wordTrie_concat:
  "wordTrie e cfg ws = Trie_insertAll (concat (map (expandWordVariants e cfg) ws)) emptyTrie"
  by (simp add: wordTrie_def fold_Trie_insertAll)

lemma set_fold_setAdd: "set (fold (\<lambda>s v. setAdd (g s) v) xs acc) = g ` set xs \<union> set acc"
  by (induction xs arbitrary: acc) (auto simp: setAdd_def)

lemma set_newSet [simp]: "set (newSet xs) = set xs"
  using set_fold_setAdd[of "\<lambda>x. x" xs "[]"] by (simp add: newSet_def)

lemma expandWordVariants_base: "normalizeWord e cfg w \<in> set (expandWordVariants e cfg w)"
  by (simp add: expandWordVariants_def Let_def set_fold_setAdd)

lemma Trie_findAllMatches_hit:
  assumes occ: "occurrence e (set ws) tx whole (compactText tx seps) a b"
  shows "\<exists>b'\<ge>b. b' < length (compactText tx seps)
           \<and> spanOf (compactText tx seps) a b'
               \<in> set (Trie_findAllMatches e (Trie_insertAll ws emptyTrie) tx whole seps)"
proof -
  let ?cs = "compactText tx seps"
  let ?P = "\<lambda>b. occurrence e (set ws) tx whole ?cs a b"
  have bound: "b' \<le> length ?cs" if "?P b'" for b'
    using that by (simp add: occurrence_def)
  define B where "B = (GREATEST b'. ?P b')"
  have B: "?P B" unfolding B_def by (rule GreatestI_nat[where P = ?P, OF occ]) (rule bound)
  have mx: "b' \<le> B" if "?P b'" for b'
    unfolding B_def by (rule Greatest_le_nat[where P = ?P, OF that]) (rule bound)
  have "spanOf ?cs a B \<in> set (Trie_findAllMatches e (Trie_insertAll ws emptyTrie) tx whole seps)"
    unfolding Trie_findAllMatches_occurrences using B mx by blast
  moreover from B have "B < length ?cs" by (simp add: occurrence_def)
  ultimately show ?thesis using mx[OF occ] by blast
qed


lemma inflectionPush_subset: "set (fst a) \<subseteq> set (fst (inflectionPush code w i a))"
  by (cases a) (auto simp: inflectionPush_def)

lemma inflection_fold_subset: "set (fst a) \<subseteq> set (fst (fold (inflectionPush code w) occ a))"
proof (induction occ arbitrary: a)
  case Nil
  show ?case by simp
next
  case (Cons i occ)
  have "set (fst a) \<subseteq> set (fst (inflectionPush code w i a))" by (rule inflectionPush_subset)
  also have "\<dots> \<subseteq> set (fst (fold (inflectionPush code w) occ (inflectionPush code w i a)))"
    by (rule Cons.IH)
  finally show ?case by simp
qed

lemma inflectionWord_subset:
  "inflectionWord e st tx code w a = Some a' \<Longrightarrow> set (fst a) \<subseteq> set (fst a')"
  using inflection_fold_subset[of a code w]
  by (auto simp: inflectionWord_def split: option.splits)

lemma inflectionStage_subset:
  assumes "inflectionStage e st tx wordlists ms = Some ms'" and "m \<in> set ms"
  shows "m \<in> set ms'"
proof (cases "(case enableInflections (detection (config st)) of None \<Rightarrow> True | Some b \<Rightarrow> b)")
  case False
  with assms show ?thesis by (simp add: inflectionStage_def)
next
  case True
  let ?N = "\<lambda>acc :: DetectionMatch list \<times> (nat \<times> nat) list. m \<in> set (fst acc)"
  from True assms(1) obtain acc' where
    f: "foldOpt (\<lambda>(languageCode, ws) acc.
                   foldOpt (inflectionWord e st tx languageCode) ws acc)
          wordlists (ms, map (\<lambda>m. (index m, length' m)) ms) = Some acc'"
    and ms': "ms' = fst acc'"
    by (auto simp: inflectionStage_def)
  have "?N acc'"
  proof (rule foldOpt_preserves[OF f, where P = ?N])
    show "?N (ms, map (\<lambda>m. (index m, length' m)) ms)" using assms(2) by simp
  next
    fix x and s s' :: "DetectionMatch list \<times> (nat \<times> nat) list"
    assume s: "?N s"
      and x: "(case x of (languageCode, ws) \<Rightarrow>
                 foldOpt (inflectionWord e st tx languageCode) ws) s = Some s'"
    obtain code ws where xx: "x = (code, ws)" by (cases x)
    with x have g: "foldOpt (inflectionWord e st tx code) ws s = Some s'" by simp
    show "?N s'"
    proof (rule foldOpt_preserves[OF g, where P = ?N])
      show "?N s" by (rule s)
    next
      fix y and t t' :: "DetectionMatch list \<times> (nat \<times> nat) list"
      assume "?N t" and "inflectionWord e st tx code y t = Some t'"
      with inflectionWord_subset[of e st tx code y t t'] show "?N t'" by blast
    qed
  qed
  with ms' show ?thesis by simp
qed

lemma DEFAULT_CONFIG_fields:
  "autoDetect (languages DEFAULT_CONFIG) = False"
  "enabled (languages DEFAULT_CONFIG) = [U ''en'']"
  "algorithm (detection DEFAULT_CONFIG) = Some AlgTrie"
  "customWords (detection DEFAULT_CONFIG) = []"
  "wholeWordsOnly (detection DEFAULT_CONFIG) = False"
  "ignoreSeparators (detection DEFAULT_CONFIG) = Some [U '' '', U ''.'', U ''-'', U ''_'', U ''*'']"
  by (simp_all add: DEFAULT_CONFIG_def)

lemma compactText_nth_le:
  assumes "a \<le> b" and "b < length (compactText tx seps)"
  shows "snd (compactText tx seps ! a) \<le> snd (compactText tx seps ! b)"
    and "snd (compactText tx seps ! b) < length tx"
proof -
  have "sorted (map snd (compactText tx seps))" by (rule compactText_sorted)
  from sorted_nth_mono[OF this, of a b] assms
  show "snd (compactText tx seps ! a) \<le> snd (compactText tx seps ! b)" by simp
  from compactFrom_nth[of b tx seps] assms(2)
  show "snd (compactText tx seps ! b) < length tx" by (simp add: compactText_compactFrom)
qed

text \<open>
  A detector with the default configuration, the English word list and its trie: where a
  word of the list stands in the normalized text, \<^verbatim>\<open>detect\<close> returns a match that starts
  there and covers the word.
\<close>

lemma detect_default_hit:
  fixes st :: ProfanityBuster and e :: env and tx :: jsstring
  defines "tn \<equiv> normalizeForDetection e tx (detectionOptions DEFAULT_CONFIG)"
  defines "cs \<equiv> compactText tn (newSet [U '' '', U ''.'', U ''-'', U ''_'', U ''*''])"
  assumes cfg: "config st = DEFAULT_CONFIG"
    and wls: "languageWordlists st = [(U ''en'', wl)]"
    and tr: "languageTries st = [(U ''en'', wordTrie e DEFAULT_CONFIG wl)]"
    and ne: "[] \<notin> set wl"
    and w: "w \<in> set wl"
    and ab: "a \<le> b" "b < length cs"
    and stands: "codePoints (normalizeWord e DEFAULT_CONFIG w)
                   = units (map fst (take (b + 1 - a) (drop a cs)))"
  shows "\<exists>ms0 ms1. exactStage e st tn [(U ''en'', wl)] = Some ms0
           \<and> inflectionStage e st tn [(U ''en'', wl)] ms0 = Some ms1
           \<and> detect e tx st = Some (\<lparr>hasProfanity = True, matches = ms1\<rparr>, st)
           \<and> (\<exists>m\<in>set ms1. index m = snd (cs ! a)
                \<and> snd (cs ! b) + 1 \<le> index m + length' m
                \<and> index m + length' m \<le> length tn
                \<and> word m = slice tn (index m) (index m + length' m)
                \<and> language m = U ''en'')"
proof -
  let ?seps = "newSet [U '' '', U ''.'', U ''-'', U ''_'', U ''*'']"
  let ?vs = "concat (map (expandWordVariants e DEFAULT_CONFIG) wl)"
  let ?wls = "[(U ''en'', wl)]"
  have noauto: "\<not> autoDetect (languages (config st))" by (simp add: cfg DEFAULT_CONFIG_fields)
  from w have wlne: "wl \<noteq> []" by auto
  have coll: "collectWordlistsForCodes st (enabled (languages (config st))) = ?wls"
    using wlne by (simp add: collectWordlistsForCodes_def cfg DEFAULT_CONFIG_fields wls)
  have tn': "normalizeForDetection e tx (detectionOptions (config st)) = tn"
    by (simp add: tn_def cfg)
  have nw: "normalizeWord e DEFAULT_CONFIG w \<noteq> []"
  proof
    assume "normalizeWord e DEFAULT_CONFIG w = []"
    with stands have "take (b + 1 - a) (drop a cs) = []" by (simp add: units_def)
    with ab show False by simp
  qed
  have "normalizeWord e DEFAULT_CONFIG w \<in> set ?vs"
    using w expandWordVariants_base[of e DEFAULT_CONFIG w] by auto
  with nw stands ab have occ: "occurrence e (set ?vs) tn False cs a b"
    unfolding occurrence_def by blast
  from Trie_findAllMatches_hit[OF occ[unfolded cs_def]] obtain b' where
    b': "b \<le> b'" "b' < length cs"
    and mem: "spanOf cs a b' \<in> set (Trie_findAllMatches e (Trie_insertAll ?vs emptyTrie) tn False ?seps)"
    unfolding cs_def by blast
  define tms where "tms = Trie_findAllMatches e (wordTrie e DEFAULT_CONFIG wl) tn False ?seps"
  from mem have tmem: "spanOf cs a b' \<in> set tms" by (simp add: tms_def wordTrie_concat)
  then have tne: "tms \<noteq> []" by auto
  define ms0 where "ms0 = map (toDetectionMatch tn (U ''en'')) tms"
  have ex: "exactStage e st tn ?wls = Some ms0"
    using tne by (simp add: cfg DEFAULT_CONFIG_fields tr Let_def ms0_def tms_def)
  define m where "m = toDetectionMatch tn (U ''en'') (spanOf cs a b')"
  have m0: "m \<in> set ms0" using tmem by (simp add: ms0_def m_def)
  have ret: "\<forall>x \<in> wordsOf ?wls. inflectionReturns e st tn x"
    using ne by (auto simp: wordsOf_def intro!: inflectionReturns_nonempty)
  from inflectionStage_returns[OF ret, of ms0] obtain ms1 where
    inf: "inflectionStage e st tn ?wls ms0 = Some ms1" by auto
  from inflectionStage_subset[OF inf m0] have m1: "m \<in> set ms1" .
  then have ne1: "ms1 \<noteq> []" by auto
  have later: "laterStages e st tn ?wls ms1 = ms1"
    using ne1 by (simp add: laterStages_def)
  have det: "detect e tx st = Some (\<lparr>hasProfanity = True, matches = ms1\<rparr>, st)"
    unfolding detect_noauto[OF noauto] coll tn' using ex inf later ne1 by simp
  from compactText_nth_le[of a b' tn ?seps] compactText_nth_le[of b b' tn ?seps] ab b'
  have le: "snd (cs ! a) \<le> snd (cs ! b')" "snd (cs ! b') < length tn" "snd (cs ! b) \<le> snd (cs ! b')"
    by (simp_all add: cs_def)
  have "index m = snd (cs ! a) \<and> snd (cs ! b) + 1 \<le> index m + length' m
        \<and> index m + length' m \<le> length tn
        \<and> word m = slice tn (index m) (index m + length' m) \<and> language m = U ''en''"
    using le by (simp add: m_def toDetectionMatch_def spanOf_def)
  with m1 ex inf det show ?thesis by blast
qed


lemma new_ProfanityBuster_default:
  "new_ProfanityBuster e None
   = Some \<lparr>config = DEFAULT_CONFIG,
            languageWordlists =
              [(U ''en'', newSet (map (normalizeWord e DEFAULT_CONFIG) (EN_WORDS e)))],
            languageTries =
              [(U ''en'', wordTrie e DEFAULT_CONFIG
                            (newSet (map (normalizeWord e DEFAULT_CONFIG) (EN_WORDS e))))],
            languageAutomata = [], phraseTrie = emptyTrie, phraseList = []\<rparr>"
proof -
  have m: "mergeConfig DEFAULT_CONFIG None = DEFAULT_CONFIG"
    by (simp add: mergeConfig_def)
  show ?thesis
    unfolding new_ProfanityBuster_def m Let_def
    by (simp add: DEFAULT_CONFIG_fields loadLanguagePacks_def rebuildMatcherForLanguage_def
          addCustomWords_def wordTrie_def Let_def)
qed

lemma withWords_fields:
  "toLowerCase (withWords ws e) = toLowerCase e"
  "normalizeNFKD (withWords ws e) = normalizeNFKD e"
  "normalizeNFKC (withWords ws e) = normalizeNFKC e"
  "isWordCodePoint (withWords ws e) = isWordCodePoint e"
  "EN_WORDS (withWords ws e) = ws"
  by (simp_all add: withWords_def)

lemma normalizeStep_withWords: "normalizeStep (withWords ws e) = normalizeStep e"
  unfolding normalizeStep_def withWords_fields by (rule refl)

lemma normalizeForDetection_withWords:
  "normalizeForDetection (withWords ws e) tx opts = normalizeForDetection e tx opts"
  unfolding normalizeForDetection_def normalizeStep_withWords withWords_fields by (rule refl)

lemma normalizeWord_withWords:
  "normalizeWord (withWords ws e) cfg w = normalizeWord e cfg w"
  by (simp add: normalizeWord_def normalizeWordWithOptions_def normalizeForDetection_withWords)

lemma normalizeWord_sample_nonempty:
  assumes "w \<noteq> []"
  shows "normalizeWord sampleEnv DEFAULT_CONFIG w \<noteq> []"
proof -
  have "length (normalizeWord sampleEnv DEFAULT_CONFIG w) = length (toLowerCase sampleEnv w)"
    unfolding normalizeWord_def normalizeWordWithOptions_def
    by (subst normalizeForDetection_length)
       (simp_all add: detectionOptions_def DEFAULT_CONFIG_def)
  moreover have "toLowerCase sampleEnv w \<noteq> []"
    using assms by (cases w) (auto simp: sampleEnv_def sampleLowerUnit_def)
  ultimately show ?thesis by auto
qed

lemma exactStage_cong:
  assumes "config st' = config st" and "languageTries st' = languageTries st"
    and "languageAutomata st' = languageAutomata st"
  shows "exactStage e st' tn wls = exactStage e st tn wls"
proof (induction wls)
  case Nil
  show ?case by simp
next
  case (Cons cw wls)
  obtain c ws where cw: "cw = (c, ws)" by (cases cw)
  show ?case
    unfolding cw exactStage.simps assms Cons.IH ..
qed

lemma inflectionStage_cong:
  assumes "config st' = config st"
  shows "inflectionStage e st' tn wls ms = inflectionStage e st tn wls ms"
proof -
  have "inflectionWord e st' tn = inflectionWord e st tn"
    by (intro ext) (simp add: inflectionWord_def assms)
  then show ?thesis by (simp add: inflectionStage_def assms)
qed

lemma addPhrase_fields:
  "config (addPhrase e p st) = config st"
  "languageWordlists (addPhrase e p st) = languageWordlists st"
  "languageTries (addPhrase e p st) = languageTries st"
  "languageAutomata (addPhrase e p st) = languageAutomata st"
  by (simp_all add: addPhrase_def Let_def)



subsection \<open>Invisible characters\<close>

text \<open>
  C6. The claim: on the text \<^verbatim>\<open>s\<close> U+200B \<^verbatim>\<open>h\<close> U+2001 \<^verbatim>\<open>i\<close> U+200D \<^verbatim>\<open>t\<close>
  the default detector returns a match of
  length 4 at offset 0. The normalized text is \<^verbatim>\<open>s h i t\<close>, of length 7, and the
  match of the sample detector has length 7.
\<close>

theorem detect_zero_width_counterexample:
  "normalizeForDetection sampleEnv zeroWidthText (detectionOptions (config sampleDetector))
     = U ''s h i t''
   \<and> map_option (map length' \<circ> matches \<circ> fst) (detect sampleEnv zeroWidthText sampleDetector)
     = Some [7]"
  by code_simp

lemma zeroWidth_normalized:
  "normalizeForDetection sampleEnv zeroWidthText (detectionOptions DEFAULT_CONFIG) = U ''s h i t''"
  by code_simp

lemma zeroWidth_compact:
  "compactText (U ''s h i t'') (newSet [U '' '', U ''.'', U ''-'', U ''_'', U ''*''])
   = [(0x73, 0), (0x68, 2), (0x69, 4), (0x74, 6)]"
  by code_simp

lemma shit_normalized: "normalizeWord sampleEnv DEFAULT_CONFIG (U ''shit'') = U ''shit''"
  by code_simp

lemma shit_codePoints: "codePoints (U ''shit'') = units [0x73, 0x68, 0x69, 0x74]"
  by code_simp

text \<open>
  C6, amended. On that input the default detector reports profanity and returns the match
  at offset 0 with length 7, the span of \<^verbatim>\<open>s h i t\<close> in the normalized text, separators
  included. This holds whatever the English table holds besides \<^verbatim>\<open>shit\<close>, when it has no
  empty word; other words of the table can add other matches.
\<close>

theorem detect_zero_width:
  assumes "U ''shit'' \<in> set ws" and "[] \<notin> set ws"
  shows "\<exists>st r. new_ProfanityBuster (withWords ws sampleEnv) None = Some st
           \<and> detect (withWords ws sampleEnv) zeroWidthText st = Some (r, st)
           \<and> hasProfanity r
           \<and> \<lparr>index = 0, length' = 7, word = U ''s h i t'', language = U ''en''\<rparr>
               \<in> set (matches r)"
proof -
  define e where "e = withWords ws sampleEnv"
  define wl where "wl = newSet (map (normalizeWord e DEFAULT_CONFIG) (EN_WORDS e))"
  define st where "st = \<lparr>config = DEFAULT_CONFIG, languageWordlists = [(U ''en'', wl)],
      languageTries = [(U ''en'', wordTrie e DEFAULT_CONFIG wl)],
      languageAutomata = [], phraseTrie = emptyTrie, phraseList = []\<rparr>"
  have new: "new_ProfanityBuster e None = Some st"
    unfolding st_def wl_def by (rule new_ProfanityBuster_default)
  have nw: "normalizeWord e DEFAULT_CONFIG = normalizeWord sampleEnv DEFAULT_CONFIG"
    by (intro ext) (simp add: e_def normalizeWord_withWords)
  have wls: "set wl = normalizeWord sampleEnv DEFAULT_CONFIG ` set ws"
    unfolding wl_def nw by (simp add: e_def withWords_fields)
  have ne: "[] \<notin> set wl"
    using assms(2) normalizeWord_sample_nonempty unfolding wls by (metis imageE)
  have w: "U ''shit'' \<in> set wl"
    unfolding wls using assms(1) shit_normalized by (metis imageI)
  have tn: "normalizeForDetection e zeroWidthText (detectionOptions DEFAULT_CONFIG) = U ''s h i t''"
    by (simp add: e_def normalizeForDetection_withWords zeroWidth_normalized)
  have stands: "codePoints (normalizeWord e DEFAULT_CONFIG (U ''shit''))
      = units (map fst (take (3 + 1 - 0)
          (drop 0 (compactText (normalizeForDetection e zeroWidthText (detectionOptions DEFAULT_CONFIG))
                     (newSet [U '' '', U ''.'', U ''-'', U ''_'', U ''*''])))))"
    unfolding tn zeroWidth_compact nw shit_normalized shit_codePoints by simp
  have f: "config st = DEFAULT_CONFIG" "languageWordlists st = [(U ''en'', wl)]"
    "languageTries st = [(U ''en'', wordTrie e DEFAULT_CONFIG wl)]"
    by (simp_all add: st_def)
  have ab: "(0::nat) \<le> 3"
    "3 < length (compactText (normalizeForDetection e zeroWidthText (detectionOptions DEFAULT_CONFIG))
                   (newSet [U '' '', U ''.'', U ''-'', U ''_'', U ''*'']))"
    unfolding tn zeroWidth_compact by simp_all
  let ?tn = "normalizeForDetection e zeroWidthText (detectionOptions DEFAULT_CONFIG)"
  let ?cs = "compactText ?tn (newSet [U '' '', U ''.'', U ''-'', U ''_'', U ''*''])"
  from detect_default_hit[of st wl e "U ''shit''" 0 3 zeroWidthText, OF f ne w ab stands]
  obtain ms1 m where
    det: "detect e zeroWidthText st = Some (\<lparr>hasProfanity = True, matches = ms1\<rparr>, st)"
    and m: "m \<in> set ms1" "index m = snd (?cs ! 0)" "snd (?cs ! 3) + 1 \<le> index m + length' m"
      "index m + length' m \<le> length ?tn" "word m = slice ?tn (index m) (index m + length' m)"
      "language m = U ''en''"
    by blast
  have v: "snd (?cs ! 0) = 0" "snd (?cs ! 3) = 6" "length ?tn = 7"
    unfolding tn zeroWidth_compact by (simp_all add: U_def)
  from m(2-4) have len: "index m = 0" "length' m = 7" unfolding v by simp_all
  have "word m = U ''s h i t''" unfolding m(5) len tn by (simp add: slice_def U_def)
  with m(6) len have "m = \<lparr>index = 0, length' = 7, word = U ''s h i t'', language = U ''en''\<rparr>"
    by (cases m) simp
  with m(1) new det show ?thesis unfolding e_def by auto
qed

theorem detect_zero_width_witness:
  "U ''shit'' \<in> set [U ''shit'', U ''hit'']
   \<and> [] \<notin> set [U ''shit'', U ''hit'']
   \<and> (\<exists>st r. new_ProfanityBuster (withWords [U ''shit'', U ''hit''] sampleEnv) None = Some st
         \<and> detect (withWords [U ''shit'', U ''hit''] sampleEnv) zeroWidthText st = Some (r, st)
         \<and> hasProfanity r
         \<and> \<lparr>index = 0, length' = 7, word = U ''s h i t'', language = U ''en''\<rparr>
             \<in> set (matches r))"
proof -
  have h1: "U ''shit'' \<in> set [U ''shit'', U ''hit'']" by simp
  have h2: "[] \<notin> set [U ''shit'', U ''hit'']" by (simp add: U_def)
  from detect_zero_width[OF h1 h2] h1 h2 show ?thesis by blast
qed

subsection \<open>Phrases\<close>

text \<open>
  C7. The claim: after \<^verbatim>\<open>addPhrase("son of a bitch")\<close> the match on the text of the
  scenario starts at the token \<^verbatim>\<open>son\<close>, which stands at offset 10. No match of the
  sample detector starts there: its only match starts at offset 25.
\<close>

theorem detect_phrase_counterexample:
  "slice phraseText 10 13 = U ''son''
   \<and> map_option (map index \<circ> matches \<circ> fst)
       (detect sampleEnv phraseText (addPhrase sampleEnv (U ''son of a bitch'') sampleDetector))
     = Some [25]"
  by code_simp

text \<open>
  The phrase stage on its own does find the phrase in that text. Its span ends at
  \<^verbatim>\<open>bitch\<close> and starts at offset 8, at the stop word \<^verbatim>\<open>a\<close> before \<^verbatim>\<open>son\<close>: the walk
  skips a stop word at its start as it does between the tokens of the phrase.
\<close>

lemma phraseStage_scenario:
  "phraseStage sampleEnv (addPhrase sampleEnv (U ''son of a bitch'') sampleDetector)
     (normalizeForDetection sampleEnv phraseText (detectionOptions (config sampleDetector)))
   = [\<lparr>index = 8, length' = 22, word = U ''a son of the a bitch'', language = U ''en''\<rparr>]"
  by code_simp

lemma phrase_normalized:
  "normalizeForDetection sampleEnv phraseText (detectionOptions DEFAULT_CONFIG) = phraseText"
  by code_simp

lemma phrase_compact:
  "length (compactText phraseText (newSet [U '' '', U ''.'', U ''-'', U ''_'', U ''*''])) = 27
   \<and> snd (compactText phraseText (newSet [U '' '', U ''.'', U ''-'', U ''_'', U ''*'']) ! 16) = 25
   \<and> snd (compactText phraseText (newSet [U '' '', U ''.'', U ''-'', U ''_'', U ''*'']) ! 20) = 29
   \<and> units (map fst (take (20 + 1 - 16)
         (drop 16 (compactText phraseText (newSet [U '' '', U ''.'', U ''-'', U ''_'', U ''*''])))))
       = codePoints (U ''bitch'')
   \<and> normalizeWord sampleEnv DEFAULT_CONFIG (U ''bitch'') = U ''bitch''"
  by code_simp

text \<open>
  C7, amended. After \<^verbatim>\<open>addPhrase("son of a bitch")\<close> on the default detector,
  \<^verbatim>\<open>detect\<close> on the text of the scenario reports profanity with a match that starts at
  offset 25, where \<^verbatim>\<open>bitch\<close> stands, and covers that word, and the result is the one that
  \<^verbatim>\<open>detect\<close> returns without the phrase: the phrase stage runs only when the stages
  before it found nothing. This holds whatever the English table holds besides
  \<^verbatim>\<open>bitch\<close>, when it has no empty word.
\<close>

theorem detect_phrase:
  assumes "U ''bitch'' \<in> set ws" and "[] \<notin> set ws"
  shows "\<exists>st r. new_ProfanityBuster (withWords ws sampleEnv) None = Some st
           \<and> detect (withWords ws sampleEnv) phraseText
                (addPhrase (withWords ws sampleEnv) (U ''son of a bitch'') st)
               = Some (r, addPhrase (withWords ws sampleEnv) (U ''son of a bitch'') st)
           \<and> hasProfanity r
           \<and> (\<exists>m\<in>set (matches r). index m = 25 \<and> 5 \<le> length' m)
           \<and> detect (withWords ws sampleEnv) phraseText st = Some (r, st)"
proof -
  define e where "e = withWords ws sampleEnv"
  define wl where "wl = newSet (map (normalizeWord e DEFAULT_CONFIG) (EN_WORDS e))"
  define st where "st = \<lparr>config = DEFAULT_CONFIG, languageWordlists = [(U ''en'', wl)],
      languageTries = [(U ''en'', wordTrie e DEFAULT_CONFIG wl)],
      languageAutomata = [], phraseTrie = emptyTrie, phraseList = []\<rparr>"
  define st2 where "st2 = addPhrase e (U ''son of a bitch'') st"
  let ?seps = "newSet [U '' '', U ''.'', U ''-'', U ''_'', U ''*'']"
  have new: "new_ProfanityBuster e None = Some st"
    unfolding st_def wl_def by (rule new_ProfanityBuster_default)
  have nw: "normalizeWord e DEFAULT_CONFIG = normalizeWord sampleEnv DEFAULT_CONFIG"
    by (intro ext) (simp add: e_def normalizeWord_withWords)
  have wls: "set wl = normalizeWord sampleEnv DEFAULT_CONFIG ` set ws"
    unfolding wl_def nw by (simp add: e_def withWords_fields)
  have ne: "[] \<notin> set wl"
    using assms(2) normalizeWord_sample_nonempty unfolding wls by (metis imageE)
  have w: "U ''bitch'' \<in> set wl"
    unfolding wls using assms(1) phrase_compact by (metis imageI)
  have tn: "normalizeForDetection e phraseText (detectionOptions DEFAULT_CONFIG) = phraseText"
    by (simp add: e_def normalizeForDetection_withWords phrase_normalized)
  have stands: "codePoints (normalizeWord e DEFAULT_CONFIG (U ''bitch''))
      = units (map fst (take (20 + 1 - 16)
          (drop 16 (compactText (normalizeForDetection e phraseText (detectionOptions DEFAULT_CONFIG))
                     ?seps))))"
    unfolding tn nw using phrase_compact by simp
  have ab: "(16::nat) \<le> 20"
    "20 < length (compactText (normalizeForDetection e phraseText (detectionOptions DEFAULT_CONFIG))
                    ?seps)"
    unfolding tn using phrase_compact by simp_all
  have f: "config st = DEFAULT_CONFIG" "languageWordlists st = [(U ''en'', wl)]"
    "languageTries st = [(U ''en'', wordTrie e DEFAULT_CONFIG wl)]"
    by (simp_all add: st_def)
  have f2: "config st2 = DEFAULT_CONFIG" "languageWordlists st2 = [(U ''en'', wl)]"
    "languageTries st2 = [(U ''en'', wordTrie e DEFAULT_CONFIG wl)]"
    by (simp_all add: st2_def addPhrase_fields f)
  let ?tn = "normalizeForDetection e phraseText (detectionOptions DEFAULT_CONFIG)"
  let ?cs = "compactText ?tn ?seps"
  from detect_default_hit[of st wl e "U ''bitch''" 16 20 phraseText, OF f ne w ab stands]
  obtain ms0 ms1 m where
    ex: "exactStage e st ?tn [(U ''en'', wl)] = Some ms0"
    and inf: "inflectionStage e st ?tn [(U ''en'', wl)] ms0 = Some ms1"
    and det: "detect e phraseText st = Some (\<lparr>hasProfanity = True, matches = ms1\<rparr>, st)"
    and m: "m \<in> set ms1" "index m = snd (?cs ! 16)" "snd (?cs ! 20) + 1 \<le> index m + length' m"
    by blast
  from detect_default_hit[of st2 wl e "U ''bitch''" 16 20 phraseText, OF f2 ne w ab stands]
  obtain ms0' ms1' where
    ex': "exactStage e st2 ?tn [(U ''en'', wl)] = Some ms0'"
    and inf': "inflectionStage e st2 ?tn [(U ''en'', wl)] ms0' = Some ms1'"
    and det': "detect e phraseText st2 = Some (\<lparr>hasProfanity = True, matches = ms1'\<rparr>, st2)"
    by blast
  have c: "config st2 = config st" "languageTries st2 = languageTries st"
    "languageAutomata st2 = languageAutomata st"
    by (simp_all add: st2_def addPhrase_fields)
  from ex ex' exactStage_cong[OF c, of e ?tn "[(U ''en'', wl)]"] have "ms0' = ms0" by simp
  with inf inf' inflectionStage_cong[OF c(1), of e ?tn "[(U ''en'', wl)]" ms0]
  have "ms1' = ms1" by simp
  with det' have det2: "detect e phraseText st2 = Some (\<lparr>hasProfanity = True, matches = ms1\<rparr>, st2)"
    by simp
  have v: "snd (?cs ! 16) = 25" "snd (?cs ! 20) = 29"
    unfolding tn using phrase_compact by simp_all
  from m(2,3) have "index m = 25 \<and> 5 \<le> length' m" unfolding v by simp
  with m(1) have "\<exists>m\<in>set ms1. index m = 25 \<and> 5 \<le> length' m" by blast
  with new det det2 show ?thesis unfolding e_def st2_def by auto
qed

theorem detect_phrase_witness:
  "U ''bitch'' \<in> set [U ''bitch'', U ''bitchin'']
   \<and> [] \<notin> set [U ''bitch'', U ''bitchin'']
   \<and> (\<exists>st r. new_ProfanityBuster (withWords [U ''bitch'', U ''bitchin''] sampleEnv) None = Some st
         \<and> detect (withWords [U ''bitch'', U ''bitchin''] sampleEnv) phraseText
              (addPhrase (withWords [U ''bitch'', U ''bitchin''] sampleEnv) (U ''son of a bitch'') st)
             = Some (r, addPhrase (withWords [U ''bitch'', U ''bitchin''] sampleEnv)
                          (U ''son of a bitch'') st)
         \<and> hasProfanity r
         \<and> (\<exists>m\<in>set (matches r). index m = 25 \<and> 5 \<le> length' m)
         \<and> detect (withWords [U ''bitch'', U ''bitchin''] sampleEnv) phraseText st = Some (r, st))"
proof -
  have h1: "U ''bitch'' \<in> set [U ''bitch'', U ''bitchin'']" by simp
  have h2: "[] \<notin> set [U ''bitch'', U ''bitchin'']" by (simp add: U_def)
  from detect_phrase[OF h1 h2] h1 h2 show ?thesis by blast
qed

end
